theory Spec2Isabelle
  imports Complex_Main "HOL-Library.Log_Nat" "HOL-Library.Word"
begin

section \<open>jtoa: JPEG to ASCII conversion (src/jtoa.c)\<close>

text \<open>
  A shallow embedding of \<^verbatim>\<open>src/jtoa.c\<close>. The process-wide variables of the C file are the
  fields of the record \<open>globals\<close>, which every function takes and returns; the C arrays are
  lists read and written through bounds-checked accessors; undefined behaviour of C
  (division by zero, a float to int conversion out of range, an access outside an array)
  is an \<open>error\<close> value.
\<close>

subsection \<open>Single-precision arithmetic\<close>

text \<open>
  The C type \<^verbatim>\<open>float\<close> is IEEE-754 binary32 with every operation rounded to nearest, ties
  to even (\<^verbatim>\<open>FLT_EVAL_METHOD\<close> 0, as on x86-64 and AArch64). A finite float is the rational
  number it denotes. \<open>fl32\<close> rounds a rational to the nearest float: the significand has 24
  bits, the least exponent is -126 (below it the spacing stays at \<open>2 powi -149\<close>). All values
  the program computes are far below the largest float, so overflow to infinity is not
  modelled; infinities and NaN arise in the program only from a division by zero, which is
  an error here.
\<close>

type_synonym float = rat

definition ilog2 :: "rat \<Rightarrow> int" where
  \<comment> \<open>for \<open>a > 0\<close>: the exponent \<open>e\<close> with \<open>2 powi e \<le> a < 2 powi (e + 1)\<close>\<close>
  "ilog2 a = (case quotient_of a of (n, d) \<Rightarrow>
     (let e0 = bitlen n - bitlen d in if 2 powi e0 \<le> a then e0 else e0 - 1))"

definition rne :: "rat \<Rightarrow> int" where
  \<comment> \<open>round to the nearest integer, ties to the even one\<close>
  "rne m = (let f = \<lfloor>m\<rfloor>; r = m - of_int f in
     if r < 1/2 then f else if 1/2 < r then f + 1 else if even f then f else f + 1)"

definition fexp :: "rat \<Rightarrow> int" where
  \<comment> \<open>the exponent of the spacing of the floats around \<open>x\<close>\<close>
  "fexp x = max (ilog2 \<bar>x\<bar>) (- 126) - 23"

definition fl32 :: "rat \<Rightarrow> float" where
  "fl32 x = (if x = 0 then 0 else
     (let q = 2 powi (fexp x) in sgn x * of_int (rne (\<bar>x\<bar> / q)) * q))"

datatype error = DivisionByZero | ConversionOutOfRange | IntegerOverflow | OutOfBounds | DecodeFailure

definition float_of_int :: "int \<Rightarrow> float" where
  \<comment> \<open>the conversion \<^verbatim>\<open>(float) n\<close>\<close>
  "float_of_int n = fl32 (of_int n)"

definition fadd :: "float \<Rightarrow> float \<Rightarrow> float" where
  "fadd a b = fl32 (a + b)"

definition fmul :: "float \<Rightarrow> float \<Rightarrow> float" where
  "fmul a b = fl32 (a * b)"

definition fdiv :: "float \<Rightarrow> float \<Rightarrow> error + float" where
  "fdiv a b = (if b = 0 then Inl DivisionByZero else Inr (fl32 (a / b)))"

definition int_of_float :: "float \<Rightarrow> error + int" where
  \<comment> \<open>the conversion \<^verbatim>\<open>(int) x\<close> to a 32-bit int: truncation towards zero, undefined out of range\<close>
  "int_of_float x = (let t = (if 0 \<le> x then \<lfloor>x\<rfloor> else \<lceil>x\<rceil>) in
     if - (2 ^ 31) \<le> t \<and> t < 2 ^ 31 then Inr t else Inl ConversionOutOfRange)"

definition ROUND :: "float \<Rightarrow> error + int" where
  \<comment> \<open>\<^verbatim>\<open>#define ROUND(x) (int) ( 0.5f + x )\<close>\<close>
  "ROUND x = int_of_float (fadd (1/2) x)"

subsection \<open>Errors, arrays and loops\<close>

definition bindE :: "error + 'a \<Rightarrow> ('a \<Rightarrow> error + 'b) \<Rightarrow> error + 'b" where
  "bindE r f = (case r of Inl e \<Rightarrow> Inl e | Inr v \<Rightarrow> f v)"

definition rd :: "'a list \<Rightarrow> int \<Rightarrow> error + 'a" where
  \<comment> \<open>the read \<^verbatim>\<open>xs[i]\<close>\<close>
  "rd xs i = (if 0 \<le> i \<and> i < int (length xs) then Inr (xs ! nat i) else Inl OutOfBounds)"

definition wr :: "'a list \<Rightarrow> int \<Rightarrow> 'a \<Rightarrow> error + 'a list" where
  \<comment> \<open>the write \<^verbatim>\<open>xs[i] = v\<close>\<close>
  "wr xs i v = (if 0 \<le> i \<and> i < int (length xs) then Inr (xs[nat i := v]) else Inl OutOfBounds)"

definition imul :: "int \<Rightarrow> int \<Rightarrow> error + int" where
  \<comment> \<open>the product \<^verbatim>\<open>a * b\<close> of two 32-bit ints: undefined when it does not fit an \<^verbatim>\<open>int\<close>\<close>
  "imul a b = (if - (2 ^ 31) \<le> a * b \<and> a * b < 2 ^ 31 then Inr (a * b) else Inl IntegerOverflow)"

fun foldE :: "('a \<Rightarrow> 's \<Rightarrow> error + 's) \<Rightarrow> 'a list \<Rightarrow> 's \<Rightarrow> error + 's" where
  \<comment> \<open>a \<^verbatim>\<open>for\<close> loop over the index list, stopping at the first error\<close>
  "foldE f [] s = Inr s"
| "foldE f (x # xs) s = (case f x s of Inl e \<Rightarrow> Inl e | Inr s' \<Rightarrow> foldE f xs s')"

definition upto_int :: "int \<Rightarrow> int list" where
  \<comment> \<open>the indices of \<^verbatim>\<open>for ( x=0; x < n; ++x )\<close>\<close>
  "upto_int n = map int [0..<nat n]"

subsection \<open>Data\<close>

type_synonym JSAMPLE = "8 word"
type_synonym JDIMENSION = "32 word"

record Image =
  i_width :: int
  i_height :: int
  pixel :: "float list"
  yadds :: "int list"
  resize_y :: float
  resize_x :: float
  lookup_resx :: "int list"

text \<open>
  The options with their defaults, the palette buffer of \<open>ASCII_PALETTE_SIZE + 1\<close> bytes, the
  static variable \<open>lasty\<close> of \<^verbatim>\<open>process_scanline\<close>, and the two output streams (one string per
  \<^verbatim>\<open>printf\<close> or \<^verbatim>\<open>fprintf\<close> call).
\<close>

record globals =
  verbose :: int
  auto_height :: int
  auto_width :: int
  width :: int
  height :: int
  invert :: int
  flipx :: int
  flipy :: int
  ascii_palette :: string
  lasty :: int
  stdout :: "string list"
  stderr :: "string list"

text \<open>
  What the program reads of libjpeg's \<^verbatim>\<open>struct jpeg_decompress_struct\<close>, and the rows that
  \<^verbatim>\<open>jpeg_read_scanlines\<close> will deliver, top to bottom.
\<close>

record jpeg_decompress_struct =
  output_width :: JDIMENSION
  output_height :: JDIMENSION
  output_components :: int
  out_color_components :: int
  output_scanline :: JDIMENSION
  rows :: "JSAMPLE list list"

definition NUL :: char where
  "NUL = CHR 0x00"

definition ASCII_PALETTE_SIZE :: nat where
  "ASCII_PALETTE_SIZE = 256"

definition strlen :: "string \<Rightarrow> nat" where
  "strlen buf = length (takeWhile (\<lambda>c. c \<noteq> NUL) buf)"

definition strcpy :: "string \<Rightarrow> string \<Rightarrow> string" where
  \<comment> \<open>\<^verbatim>\<open>strcpy(buf, s)\<close> for a string \<open>s\<close> without NUL that fits: the bytes behind stay\<close>
  "strcpy buf s = s @ [NUL] @ drop (length s + 1) buf"

definition default_palette :: string where
  "default_palette = ''   ...'' @ [CHR 0x27] @ '',;:clodxkO0KXNWM''"

definition initial_globals :: globals where
  "initial_globals = \<lparr> verbose = 0, auto_height = 1, auto_width = 0, width = 78, height = 0,
     invert = 0, flipx = 0, flipy = 0,
     ascii_palette = replicate (ASCII_PALETTE_SIZE + 1) NUL,
     lasty = 0, stdout = [], stderr = [] \<rparr>"

subsection \<open>calc_aspect_ratio\<close>

definition calc_width :: "globals \<Rightarrow> int \<Rightarrow> int \<Rightarrow> error + int" where
  \<comment> \<open>\<^verbatim>\<open>ROUND(2.0f * (float) height * (float) jpeg_width / (float) jpeg_height)\<close>\<close>
  "calc_width g jpeg_width jpeg_height =
     bindE (fdiv (fmul (fmul 2 (float_of_int (height g))) (float_of_int jpeg_width))
                 (float_of_int jpeg_height)) ROUND"

definition calc_height :: "globals \<Rightarrow> int \<Rightarrow> int \<Rightarrow> error + int" where
  \<comment> \<open>\<^verbatim>\<open>ROUND(0.5f * (float) width * (float) jpeg_height / (float) jpeg_width)\<close>\<close>
  "calc_height g jpeg_width jpeg_height =
     bindE (fdiv (fmul (fmul (1/2) (float_of_int (width g))) (float_of_int jpeg_height))
                 (float_of_int jpeg_width)) ROUND"

text \<open>
  The function calls itself from inside its two \<^verbatim>\<open>while\<close> loops, so the recursion goes
  through three program points: the function entry and the head of each loop. The result
  is \<open>None\<close> when the recursion does not return.
\<close>

datatype calc_point = Entry | WidthLoop | HeightLoop

partial_function (option) calc_aspect_ratio_at ::
  "calc_point \<Rightarrow> int \<Rightarrow> int \<Rightarrow> globals \<Rightarrow> (error + globals) option" where
  "calc_aspect_ratio_at pt jpeg_width jpeg_height g =
    (case pt of
       Entry \<Rightarrow>
         Option.bind
           (if auto_width g \<noteq> 0 \<and> auto_height g = 0 then
              (case calc_width g jpeg_width jpeg_height of
                 Inl e \<Rightarrow> Some (Inl e)
               | Inr w \<Rightarrow> calc_aspect_ratio_at WidthLoop jpeg_width jpeg_height (g\<lparr>width := w\<rparr>))
            else Some (Inr g))
           (\<lambda>r. case r of
              Inl e \<Rightarrow> Some (Inl e)
            | Inr g1 \<Rightarrow>
               if auto_width g1 = 0 \<and> auto_height g1 \<noteq> 0 then
                 (case calc_height g1 jpeg_width jpeg_height of
                    Inl e \<Rightarrow> Some (Inl e)
                  | Inr h \<Rightarrow> calc_aspect_ratio_at HeightLoop jpeg_width jpeg_height (g1\<lparr>height := h\<rparr>))
               else Some (Inr g1))
     | WidthLoop \<Rightarrow>
         if width g = 0 then
           Option.bind (calc_aspect_ratio_at Entry jpeg_width jpeg_height (g\<lparr>height := height g + 1\<rparr>))
             (\<lambda>r. case r of
                Inl e \<Rightarrow> Some (Inl e)
              | Inr g' \<Rightarrow> calc_aspect_ratio_at WidthLoop jpeg_width jpeg_height g')
         else Some (Inr g)
     | HeightLoop \<Rightarrow>
         if height g = 0 then
           Option.bind (calc_aspect_ratio_at Entry jpeg_width jpeg_height (g\<lparr>width := width g + 1\<rparr>))
             (\<lambda>r. case r of
                Inl e \<Rightarrow> Some (Inl e)
              | Inr g' \<Rightarrow> calc_aspect_ratio_at HeightLoop jpeg_width jpeg_height g')
         else Some (Inr g))"

declare calc_aspect_ratio_at.simps [code]

definition calc_aspect_ratio :: "int \<Rightarrow> int \<Rightarrow> globals \<Rightarrow> (error + globals) option" where
  "calc_aspect_ratio jpeg_width jpeg_height g = calc_aspect_ratio_at Entry jpeg_width jpeg_height g"

subsection \<open>print_image\<close>

definition newline :: char where
  "newline = CHR 0x0A"

definition palette_index :: "globals \<Rightarrow> int \<Rightarrow> float \<Rightarrow> error + int" where
  \<comment> \<open>\<^verbatim>\<open>int pos = ROUND( (float) chars * intensity );\<close> and the index \<^verbatim>\<open>!invert ? chars - pos : pos\<close>\<close>
  "palette_index g chars intensity =
     bindE (ROUND (fmul (float_of_int chars) intensity)) (\<lambda>pos.
     Inr (if invert g = 0 then chars - pos else pos))"

definition print_image_cell :: "globals \<Rightarrow> Image \<Rightarrow> int \<Rightarrow> int \<Rightarrow> int \<Rightarrow> string \<Rightarrow> error + string" where
  \<comment> \<open>the body of the inner loop: one cell \<open>(x, y)\<close>, written into \<open>line\<close>\<close>
  "print_image_cell g i chars y x line =
     bindE (rd (pixel i) ((if flipy g = 0 then y else i_height i - y - 1) * i_width i + x))
       (\<lambda>intensity.
     bindE (palette_index g chars intensity) (\<lambda>k.
     bindE (rd (ascii_palette g) k) (\<lambda>c.
     wr line (if flipx g = 0 then x else i_width i - x - 1) c)))"

definition print_image_row :: "globals \<Rightarrow> Image \<Rightarrow> int \<Rightarrow> int \<Rightarrow> string \<times> string list \<Rightarrow>
    error + string \<times> string list" where
  \<comment> \<open>the body of the outer loop: fill \<open>line\<close>, then \<^verbatim>\<open>printf("%s\n", line)\<close>\<close>
  "print_image_row g i chars y st =
     bindE (foldE (print_image_cell g i chars y) (upto_int (i_width i)) (fst st)) (\<lambda>line.
     Inr (line, snd st @ [takeWhile (\<lambda>c. c \<noteq> NUL) line @ [newline]]))"

definition print_image :: "globals \<Rightarrow> Image \<Rightarrow> int \<Rightarrow> error + globals" where
  \<comment> \<open>\<^verbatim>\<open>char line[w + 1]; line[w] = 0;\<close> then the two loops\<close>
  "print_image g i chars =
     bindE (wr (replicate (nat (i_width i + 1)) NUL) (i_width i) NUL) (\<lambda>line0.
     bindE (foldE (print_image_row g i chars) (upto_int (i_height i)) (line0, stdout g)) (\<lambda>st.
     Inr (g\<lparr>stdout := snd st\<rparr>)))"

definition rendered :: "globals \<Rightarrow> Image \<Rightarrow> int \<Rightarrow> error + string list" where
  \<comment> \<open>the lines that \<open>print_image\<close> adds to the standard output\<close>
  "rendered g i chars = bindE (print_image g i chars) (\<lambda>g'. Inr (drop (length (stdout g)) (stdout g')))"

text \<open>
  Flipping a rendered output: its lines in reverse order, or every line reversed in front
  of its newline.
\<close>

definition flip_lines_y :: "string list \<Rightarrow> string list" where
  "flip_lines_y out = rev out"

definition flip_lines_x :: "string list \<Rightarrow> string list" where
  "flip_lines_x out = map (\<lambda>l. rev (butlast l) @ [last l]) out"

text \<open>The character printed for the cell in row \<open>r\<close> and column \<open>c\<close> of the grid.\<close>

definition cell_char :: "globals \<Rightarrow> Image \<Rightarrow> int \<Rightarrow> nat \<Rightarrow> nat \<Rightarrow> char" where
  "cell_char g i chars r c =
     ascii_palette g ! nat (projr (palette_index g chars (pixel i ! (r * nat (i_width i) + c))))"

text \<open>The text of the output row \<open>y\<close>, without the newline.\<close>

definition row_text :: "globals \<Rightarrow> Image \<Rightarrow> int \<Rightarrow> nat \<Rightarrow> string" where
  "row_text g i chars y =
     map (\<lambda>p. cell_char g i chars
                (if flipy g = 0 then y else nat (i_height i) - y - 1)
                (if flipx g = 0 then p else nat (i_width i) - p - 1))
       [0..<nat (i_width i)]"

subsection \<open>clear, normalize, intensity\<close>

definition clear :: "Image \<Rightarrow> Image" where
  \<comment> \<open>the two \<^verbatim>\<open>memset\<close> calls\<close>
  "clear i = i\<lparr>
     pixel := replicate (nat (i_width i * i_height i)) 0 @ drop (nat (i_width i * i_height i)) (pixel i),
     yadds := replicate (nat (i_height i)) 0 @ drop (nat (i_height i)) (yadds i)\<rparr>"

definition normalize_cell :: "Image \<Rightarrow> int \<Rightarrow> int \<Rightarrow> float list \<Rightarrow> error + float list" where
  \<comment> \<open>\<^verbatim>\<open>if ( i->yadds[y] != 0 ) i->pixel[yoffs + x] /= (float) i->yadds[y];\<close> with \<open>yoffs = y * w\<close>\<close>
  "normalize_cell i y x px =
     bindE (rd (yadds i) y) (\<lambda>n.
       if n \<noteq> 0 then
         bindE (rd px (y * i_width i + x)) (\<lambda>p.
         bindE (fdiv p (float_of_int n)) (\<lambda>q.
         wr px (y * i_width i + x) q))
       else Inr px)"

definition normalize_row :: "Image \<Rightarrow> int \<Rightarrow> float list \<Rightarrow> error + float list" where
  "normalize_row i y px = foldE (normalize_cell i y) (upto_int (i_width i)) px"

definition normalize :: "Image \<Rightarrow> error + Image" where
  "normalize i =
     bindE (foldE (normalize_row i) (upto_int (i_height i)) (pixel i)) (\<lambda>px.
     Inr (i\<lparr>pixel := px\<rparr>))"

definition intensity :: "JSAMPLE list \<Rightarrow> int \<Rightarrow> int \<Rightarrow> error + float" where
  \<comment> \<open>\<open>source\<close> is \<^verbatim>\<open>&scanline[off]\<close>\<close>
  "intensity scanline off components =
     bindE (rd scanline off) (\<lambda>s0.
     bindE (foldE (\<lambda>c v. bindE (rd scanline (off + c)) (\<lambda>s. Inr (fadd v (float_of_int (uint s)))))
              (map int [1..<nat components]) (float_of_int (uint s0))) (\<lambda>v.
     fdiv v (fmul 255 (float_of_int components))))"

subsection \<open>process_scanline\<close>

lemma bindE_cong [fundef_cong]:
  "r = r' \<Longrightarrow> (\<And>v. r' = Inr v \<Longrightarrow> f v = f' v) \<Longrightarrow> bindE r f = bindE r' f'"
  by (auto simp: bindE_def split: sum.splits)

definition accumulate_cell ::
  "jpeg_decompress_struct \<Rightarrow> JSAMPLE list \<Rightarrow> Image \<Rightarrow> int \<Rightarrow> int \<Rightarrow> float list \<Rightarrow> error + float list" where
  \<comment> \<open>\<^verbatim>\<open>i->pixel[yoff + x] += intensity( &scanline[ i->lookup_resx[x] ], jpg->out_color_components);\<close>\<close>
  "accumulate_cell jpg scanline i yoff x px =
     bindE (rd (lookup_resx i) x) (\<lambda>off.
     bindE (intensity scanline off (out_color_components jpg)) (\<lambda>v.
     bindE (rd px (yoff + x)) (\<lambda>p.
     wr px (yoff + x) (fadd p v))))"

function process_scanline_loop ::
  "jpeg_decompress_struct \<Rightarrow> JSAMPLE list \<Rightarrow> int \<Rightarrow> Image \<Rightarrow> int \<Rightarrow> error + Image \<times> int" where
  \<comment> \<open>\<^verbatim>\<open>while ( lasty <= y )\<close>; returns the image and \<open>lasty\<close> at the exit of the loop\<close>
  "process_scanline_loop jpg scanline y i l =
     (if l \<le> y then
        bindE (foldE (accumulate_cell jpg scanline i (l * i_width i)) (upto_int (i_width i)) (pixel i))
          (\<lambda>px.
        bindE (rd (yadds i) l) (\<lambda>n.
        bindE (wr (yadds i) l (n + 1)) (\<lambda>ya.
        process_scanline_loop jpg scanline y (i\<lparr>pixel := px, yadds := ya\<rparr>) (l + 1))))
      else Inr (i, l))"
  by pat_completeness auto
termination
  by (relation "measure (\<lambda>(jpg, scanline, y, i, l). nat (y + 1 - l))") auto

definition process_scanline ::
  "jpeg_decompress_struct \<Rightarrow> JSAMPLE list \<Rightarrow> Image \<Rightarrow> globals \<Rightarrow> error + Image \<times> globals" where
  "process_scanline jpg scanline i g =
     bindE (ROUND (fmul (resize_y i) (float_of_int (uint (output_scanline jpg - 1))))) (\<lambda>y.
     bindE (process_scanline_loop jpg scanline y i (lasty g)) (\<lambda>r.
     Inr (fst r, g\<lparr>lasty := y\<rparr>)))"

subsection \<open>malloc_image, init_image\<close>

text \<open>
  Allocation is taken to succeed (otherwise the program exits with code 1). The contents of
  fresh memory are unspecified in C; here they are zero, and every element is written
  before it is read: \<open>pixel\<close> and \<open>yadds\<close> by \<open>clear\<close>, \<open>lookup_resx\<close> by \<open>init_image\<close>.
\<close>

definition malloc_image :: "globals \<Rightarrow> Image" where
  "malloc_image g = \<lparr> i_width = width g, i_height = height g,
     pixel = replicate (nat (width g * height g)) 0,
     yadds = replicate (nat (height g)) 0,
     resize_y = 0, resize_x = 0,
     lookup_resx = replicate (nat (width g)) 0 \<rparr>"

definition init_image_column :: "jpeg_decompress_struct \<Rightarrow> float \<Rightarrow> int \<Rightarrow> int list \<Rightarrow> error + int list" where
  \<comment> \<open>\<^verbatim>\<open>lookup_resx[dst_x] = (int)( (float) dst_x * resize_x ); lookup_resx[dst_x] *= out_color_components;\<close>\<close>
  "init_image_column jpg rx dst_x lk =
     bindE (int_of_float (fmul (float_of_int dst_x) rx)) (\<lambda>v.
     bindE (wr lk dst_x v) (\<lambda>lk1.
     bindE (rd lk1 dst_x) (\<lambda>u.
     bindE (imul u (out_color_components jpg)) (\<lambda>p.
     wr lk1 dst_x p))))"

definition init_image_columns :: "Image \<Rightarrow> jpeg_decompress_struct \<Rightarrow> error + float \<times> int list" where
  \<comment> \<open>lines 244 to 250 of \<^verbatim>\<open>init_image\<close>: \<open>resize_x\<close>, and the loop that fills \<open>lookup_resx\<close>\<close>
  "init_image_columns i jpg =
     bindE (fdiv (float_of_int (uint (output_width jpg))) (float_of_int (i_width i))) (\<lambda>rx.
     bindE (foldE (init_image_column jpg rx) (upto_int (i_width i)) (lookup_resx i)) (\<lambda>lk.
     Inr (rx, lk)))"

definition init_image :: "Image \<Rightarrow> jpeg_decompress_struct \<Rightarrow> error + Image" where
  \<comment> \<open>line 243, \<open>resize_y\<close>, and then lines 244 to 250\<close>
  "init_image i jpg =
     bindE (fdiv (float_of_int (i_height i - 1)) (float_of_int (uint (output_height jpg - 1)))) (\<lambda>ry.
     bindE (init_image_columns i jpg) (\<lambda>r.
     Inr (i\<lparr>resize_y := ry, resize_x := fst r, lookup_resx := snd r\<rparr>)))"

subsection \<open>print_info, decompress\<close>

function show_nat :: "nat \<Rightarrow> string" where
  "show_nat n = (if n < 10 then [char_of (48 + n)] else show_nat (n div 10) @ [char_of (48 + n mod 10)])"
  by pat_completeness auto
termination
  by (relation "measure id") auto

definition show_int :: "int \<Rightarrow> string" where
  \<comment> \<open>the conversion \<^verbatim>\<open>%d\<close> of \<^verbatim>\<open>fprintf\<close>\<close>
  "show_int n = (if n < 0 then CHR ''-'' # show_nat (nat (- n)) else show_nat (nat n))"

definition print_info :: "jpeg_decompress_struct \<Rightarrow> globals \<Rightarrow> globals" where
  "print_info cinfo g = g\<lparr>stderr := stderr g @
     [''Source width: '' @ show_int (uint (output_width cinfo)) @ [newline],
      ''Source height: '' @ show_int (uint (output_height cinfo)) @ [newline],
      ''Source color components: '' @ show_int (output_components cinfo) @ [newline],
      ''Output width: '' @ show_int (width g) @ [newline],
      ''Output height: '' @ show_int (height g) @ [newline],
      ''Output palette ('' @ show_int (int (strlen (ascii_palette g))) @ '' chars): '' @ [CHR 0x27]
        @ takeWhile (\<lambda>c. c \<noteq> NUL) (ascii_palette g) @ [CHR 0x27, newline, newline]]\<rparr>"

function decompress_loop ::
  "jpeg_decompress_struct \<Rightarrow> Image \<Rightarrow> globals \<Rightarrow> error + Image \<times> globals" where
  \<comment> \<open>\<^verbatim>\<open>while ( jpg.output_scanline < jpg.output_height )\<close>: \<^verbatim>\<open>jpeg_read_scanlines\<close> delivers the
      next row into \<open>buffer\<close> and advances \<open>output_scanline\<close>\<close>
  "decompress_loop jpg i g =
     (if output_scanline jpg < output_height jpg then
        (case rows jpg of
           [] \<Rightarrow> Inl DecodeFailure
         | buffer # rest \<Rightarrow>
             bindE (process_scanline (jpg\<lparr>output_scanline := output_scanline jpg + 1, rows := rest\<rparr>) buffer i g)
               (\<lambda>r. decompress_loop (jpg\<lparr>output_scanline := output_scanline jpg + 1, rows := rest\<rparr>)
                      (fst r) (snd r)))
      else Inr (i, g))"
  by pat_completeness auto
termination
  by (relation "measure (\<lambda>(jpg, i, g). length (rows jpg))") auto

text \<open>
  \<open>jpg\<close> is the decompressor after \<^verbatim>\<open>jpeg_start_decompress\<close>: the header fields are set and
  \<open>output_scanline\<close> is 0. The two dimensions are \<^verbatim>\<open>unsigned int\<close> and are passed to the
  \<^verbatim>\<open>int\<close> parameters of \<^verbatim>\<open>calc_aspect_ratio\<close>.
\<close>

definition decompress :: "jpeg_decompress_struct \<Rightarrow> globals \<Rightarrow> (error + int \<times> globals) option" where
  "decompress jpg g =
     (case calc_aspect_ratio (sint (output_width jpg)) (sint (output_height jpg)) g of
        None \<Rightarrow> None
      | Some (Inl e) \<Rightarrow> Some (Inl e)
      | Some (Inr g1) \<Rightarrow> Some (
          bindE (init_image (clear (malloc_image g1)) jpg) (\<lambda>image.
          bindE (decompress_loop jpg image (if verbose g1 \<noteq> 0 then print_info jpg g1 else g1)) (\<lambda>r.
          bindE (normalize (fst r)) (\<lambda>image'.
          bindE (print_image (snd r) image' (int (strlen (ascii_palette (snd r))) - 1)) (\<lambda>g2.
          Inr (0, g2)))))))"

subsection \<open>parse_options\<close>

text \<open>
  \<^verbatim>\<open>sscanf\<close> with a format that is a literal prefix followed by \<^verbatim>\<open>%d\<close>: the prefix must
  match; \<^verbatim>\<open>%d\<close> skips white space, takes an optional sign and at least one digit. The value
  of a digit string too long for an \<^verbatim>\<open>int\<close> is undefined in C and unbounded here.
\<close>

definition isspace :: "char \<Rightarrow> bool" where
  "isspace c = (c \<in> set [CHR '' '', CHR 0x09, CHR 0x0A, CHR 0x0B, CHR 0x0C, CHR 0x0D])"

definition isdigit :: "char \<Rightarrow> bool" where
  "isdigit c = (c \<in> set ''0123456789'')"

definition digits_value :: "string \<Rightarrow> int" where
  "digits_value ds = foldl (\<lambda>v c. 10 * v + (of_char c - 48)) 0 ds"

definition scan_int :: "string \<Rightarrow> (int \<times> string) option" where
  "scan_int s =
     (let s1 = dropWhile isspace s;
          neg = (case s1 of c # _ \<Rightarrow> c = CHR ''-'' | [] \<Rightarrow> False);
          s2 = (case s1 of c # r \<Rightarrow> if c = CHR ''-'' \<or> c = CHR ''+'' then r else s1 | [] \<Rightarrow> s1);
          ds = takeWhile isdigit s2
      in if ds = [] then None
         else Some ((if neg then - digits_value ds else digits_value ds), dropWhile isdigit s2))"

definition scan_literal :: "string \<Rightarrow> string \<Rightarrow> string option" where
  "scan_literal lit s = (if take (length lit) s = lit then Some (drop (length lit) s) else None)"

definition sscanf_d :: "string \<Rightarrow> string \<Rightarrow> int option" where
  \<comment> \<open>\<^verbatim>\<open>sscanf(s, "<lit>%d", &var) == 1\<close>, with the value stored\<close>
  "sscanf_d lit s = (case scan_literal lit s of None \<Rightarrow> None
     | Some r \<Rightarrow> map_option fst (scan_int r))"

definition sscanf_dxd :: "string \<Rightarrow> string \<Rightarrow> int option \<times> int option" where
  \<comment> \<open>\<^verbatim>\<open>sscanf(s, "<lit>%dx%d", &var1, &var2)\<close>: the values stored, the second only after the first\<close>
  "sscanf_dxd lit s = (case scan_literal lit s of None \<Rightarrow> (None, None)
     | Some r \<Rightarrow> (case scan_int r of None \<Rightarrow> (None, None)
        | Some (a, r1) \<Rightarrow> (case scan_literal ''x'' r1 of None \<Rightarrow> (Some a, None)
           | Some r2 \<Rightarrow> (Some a, map_option fst (scan_int r2)))))"

definition help_text :: string where
  "help_text = ''Usage: jtoa [ options ] [ file(s) ]'' @ [newline, newline]
     @ ''Convert files in JPEG format to ASCII.'' @ [newline, newline]
     @ ''OPTIONS'' @ [newline]
     @ ''    --chars=...  Leftmost char corresponds to black pixel, right-most to white (specify at least 2 characters).'' @ [newline]
     @ ''    --flipx      Flip image in X direction.'' @ [newline]
     @ ''    --flipy      Flip image in Y direction.'' @ [newline]
     @ ''    --height=N   Set output height, calculate width from aspect ratio.'' @ [newline]
     @ ''-h, --help       Print program help.'' @ [newline]
     @ ''-i, --invert     Invert output image.  Use if your display has a dark background.'' @ [newline]
     @ ''    --size=WxH   Set output width and height.'' @ [newline]
     @ ''-v, --verbose    Verbose output.'' @ [newline]
     @ ''    --width=N    Set output width, calculate height from ratio.'' @ [newline, newline]
     @ ''  The default running mode is '' @ [CHR 0x27] @ ''jtoa --width=78'' @ [CHR 0x27, newline]"

definition help_usage :: "globals \<Rightarrow> globals" where
  "help_usage g = g\<lparr>stderr := stderr g @ [help_text]\<rparr>"

definition char_at :: "string \<Rightarrow> nat \<Rightarrow> char" where
  \<comment> \<open>\<^verbatim>\<open>s[k]\<close> for a C string: the terminator behind the last character\<close>
  "char_at s k = (if k < length s then s ! k else NUL)"

datatype parse_step = Continue int globals | Return int globals | Undefined error

definition parse_arg :: "string \<Rightarrow> int \<Rightarrow> globals \<Rightarrow> parse_step" where
  \<comment> \<open>the body of the loop over the arguments; \<^verbatim>\<open>strlen(s-8)\<close> reads in front of the string\<close>
  "parse_arg s files g =
     (if char_at s 0 \<noteq> CHR ''-'' then Continue (files + 1) g
      else if s = ''-'' then Continue (files + 1) g
      else if s = ''-h'' \<or> s = ''--help'' then Return 0 (help_usage g)
      else if s = ''-v'' \<or> s = ''--verbose'' then Continue files (g\<lparr>verbose := 1\<rparr>)
      else if s = ''-i'' \<or> s = ''--invert'' then Continue files (g\<lparr>invert := 1\<rparr>)
      else if s = ''--flipx'' then Continue files (g\<lparr>flipx := 1\<rparr>)
      else if s = ''--flipy'' then Continue files (g\<lparr>flipy := 1\<rparr>)
      else (case sscanf_d ''--width='' s of
          Some n \<Rightarrow> Continue files (g\<lparr>width := n, auto_height := auto_height g + 1\<rparr>)
        | None \<Rightarrow> (case sscanf_d ''--height='' s of
          Some n \<Rightarrow> Continue files (g\<lparr>height := n, auto_width := auto_width g + 1\<rparr>)
        | None \<Rightarrow> (case sscanf_dxd ''--size='' s of
          (Some a, Some b) \<Rightarrow> Continue files (g\<lparr>width := a, height := b, auto_width := 0, auto_height := 0\<rparr>)
        | (r, _) \<Rightarrow>
            (let g1 = (case r of Some a \<Rightarrow> g\<lparr>width := a\<rparr> | None \<Rightarrow> g) in
             if take 8 s = ''--chars='' then Undefined OutOfBounds
             else Return 1 (help_usage (g1\<lparr>stderr := stderr g1 @ [''Unknown option '' @ s @ [newline, newline]]\<rparr>)))))))"

fun parse_loop :: "string list \<Rightarrow> int \<Rightarrow> globals \<Rightarrow> parse_step" where
  "parse_loop [] files g = Continue files g"
| "parse_loop (s # ss) files g =
     (case parse_arg s files g of Continue files' g' \<Rightarrow> parse_loop ss files' g' | r \<Rightarrow> r)"

definition parse_options :: "string list \<Rightarrow> globals \<Rightarrow> error + int \<times> globals" where
  \<comment> \<open>\<open>argv\<close> with the program name first; returns a positive error code, or -1 for parsing OK\<close>
  "parse_options argv g =
     (case parse_loop (tl argv) 0 g of
        Undefined e \<Rightarrow> Inl e
      | Return r g' \<Rightarrow> Inr (r, g')
      | Continue files g1 \<Rightarrow>
          if files = 0 then
            Inr (1, help_usage (g1\<lparr>stderr := stderr g1 @ [''No files specified.'' @ [newline, newline]]\<rparr>))
          else
            (let g2 = (if auto_width g1 = 1 \<and> auto_height g1 = 1 then g1\<lparr>auto_height := 0\<rparr> else g1);
                 g3 = (if auto_width g2 = 2 \<and> auto_height g2 = 1
                       then g2\<lparr>auto_width := 0, auto_height := 0\<rparr> else g2)
             in if strlen (ascii_palette g3) < 2 then
                  Inr (1, g3\<lparr>stderr := stderr g3 @
                    [''You must specify at least two characters in --chars.'' @ [newline]]\<rparr>)
                else if (width g3 < 1 \<and> auto_width g3 = 0) \<or> (height g3 < 1 \<and> auto_height g3 = 0) then
                  Inr (1, g3\<lparr>stderr := stderr g3 @ [''Invalid width or height specified.'' @ [newline]]\<rparr>)
                else Inr (- 1, g3)))"

subsection \<open>main\<close>

text \<open>
  The environment of the process: \<open>fopen\<close> maps a file name to the decompressor that libjpeg
  sets up on that file, or to \<open>None\<close> when the file cannot be opened; \<open>stdin_jpg\<close> is the one
  for standard input.
\<close>

datatype main_step = Next globals | Exit int globals

definition main_fopen ::
  "(string \<Rightarrow> jpeg_decompress_struct option) \<Rightarrow> string \<Rightarrow> globals \<Rightarrow> (error + main_step) option" where
  \<comment> \<open>\<^verbatim>\<open>if ( (fp = fopen(argv[n], "rb")) != NULL ) { ... } else { ... return 1; }\<close>\<close>
  "main_fopen fopen a g =
     (case fopen a of
        Some jpg \<Rightarrow>
          (case decompress jpg (if verbose g \<noteq> 0 then g\<lparr>stderr := stderr g @ [''File: '' @ a @ [newline]]\<rparr> else g) of
             None \<Rightarrow> None
           | Some (Inl e) \<Rightarrow> Some (Inl e)
           | Some (Inr (r, g')) \<Rightarrow> Some (Inr (if r \<noteq> 0 then Exit r g' else Next g')))
      | None \<Rightarrow> Some (Inr (Exit 1 (g\<lparr>stderr := stderr g @ [''Can'' @ [CHR 0x27] @ ''t open '' @ a @ [newline]]\<rparr>))))"

definition main_iteration ::
  "(string \<Rightarrow> jpeg_decompress_struct option) \<Rightarrow> jpeg_decompress_struct \<Rightarrow> string \<Rightarrow> globals \<Rightarrow>
     (error + main_step) option" where
  \<comment> \<open>the body of the loop over \<open>argv\<close>\<close>
  "main_iteration fopen stdin_jpg a g =
     (if char_at a 0 = CHR ''-'' \<and> char_at a 1 \<noteq> NUL then Some (Inr (Next g))
      else if char_at a 0 = CHR ''-'' \<and> char_at a 1 = NUL then
        (case decompress stdin_jpg g of
           None \<Rightarrow> None
         | Some (Inl e) \<Rightarrow> Some (Inl e)
         | Some (Inr (r, g')) \<Rightarrow> if r = 0 then Some (Inr (Next g')) else main_fopen fopen a g')
      else main_fopen fopen a g)"

fun main_loop ::
  "(string \<Rightarrow> jpeg_decompress_struct option) \<Rightarrow> jpeg_decompress_struct \<Rightarrow> string list \<Rightarrow> globals \<Rightarrow>
     (error + int \<times> globals) option" where
  "main_loop fopen stdin_jpg [] g = Some (Inr (0, g))"
| "main_loop fopen stdin_jpg (a # as) g =
     (case main_iteration fopen stdin_jpg a g of
        None \<Rightarrow> None
      | Some (Inl e) \<Rightarrow> Some (Inl e)
      | Some (Inr (Exit r g')) \<Rightarrow> Some (Inr (r, g'))
      | Some (Inr (Next g')) \<Rightarrow> main_loop fopen stdin_jpg as g')"

definition main ::
  "(string \<Rightarrow> jpeg_decompress_struct option) \<Rightarrow> jpeg_decompress_struct \<Rightarrow> string list \<Rightarrow>
     (error + int \<times> globals) option" where
  \<comment> \<open>the exit code and the final state of the process\<close>
  "main fopen stdin_jpg argv =
     (case parse_options argv
             (initial_globals\<lparr>ascii_palette := strcpy (ascii_palette initial_globals) default_palette\<rparr>) of
        Inl e \<Rightarrow> Some (Inl e)
      | Inr (r, g) \<Rightarrow> if r \<ge> 0 then Some (Inr (r, g)) else main_loop fopen stdin_jpg (tl argv) g)"

subsection \<open>Example inputs\<close>

definition start_globals :: globals where
  \<comment> \<open>the state in which \<open>main\<close> calls \<open>parse_options\<close>\<close>
  "start_globals = initial_globals\<lparr>ascii_palette := strcpy (ascii_palette initial_globals) default_palette\<rparr>"

definition fixed_size :: "int \<Rightarrow> int \<Rightarrow> globals" where
  \<comment> \<open>the options after \<^verbatim>\<open>--size=WxH\<close>\<close>
  "fixed_size w h = start_globals\<lparr>width := w, height := h, auto_width := 0, auto_height := 0\<rparr>"

definition white_1x1 :: jpeg_decompress_struct where
  \<comment> \<open>a gray-scale image of one white pixel\<close>
  "white_1x1 = \<lparr>output_width = 1, output_height = 1, output_components = 1, out_color_components = 1,
     output_scanline = 0, rows = [[255]]\<rparr>"

definition white_over_black :: jpeg_decompress_struct where
  \<comment> \<open>a gray-scale image one pixel wide and two high: a white pixel above a black one\<close>
  "white_over_black = \<lparr>output_width = 1, output_height = 2, output_components = 1,
     out_color_components = 1, output_scanline = 0, rows = [[255], [0]]\<rparr>"


definition wide_1024 :: jpeg_decompress_struct where
  \<comment> \<open>the header of a source \<open>2 ^ 22\<close> samples wide with 1024 components: a row of \<open>2 ^ 32\<close> samples\<close>
  "wide_1024 = \<lparr>output_width = 4194304, output_height = 2, output_components = 1024,
     out_color_components = 1024, output_scanline = 0, rows = []\<rparr>"

definition summed_cell :: Image where
  \<comment> \<open>a grid of one cell that holds the sum 1 of two contributions\<close>
  "summed_cell = \<lparr>i_width = 1, i_height = 1, pixel = [1], yadds = [2], resize_y = 0, resize_x = 1,
     lookup_resx = [0]\<rparr>"

definition gradient_2x2 :: Image where
  \<comment> \<open>a finished grid of 2 by 2 cells: black, gray, gray, white\<close>
  "gradient_2x2 = \<lparr>i_width = 2, i_height = 2, pixel = [0, 1/2, 1/2, 1], yadds = [1, 1],
     resize_y = 1, resize_x = 1, lookup_resx = [0, 1]\<rparr>"

definition only_a_jpg :: "string \<Rightarrow> jpeg_decompress_struct option" where
  \<comment> \<open>a directory that holds the single file \<^verbatim>\<open>a.jpg\<close>\<close>
  "only_a_jpg name = (if name = ''a.jpg'' then Some white_over_black else None)"

section \<open>Properties\<close>

subsection \<open>Rounding to single precision\<close>

text \<open>
  \<open>fl32\<close> is monotone, is the identity on the floats, and has a relative error of at most
  \<open>2 powi -24\<close> on the normal range.
\<close>

lemma quotient_of_pos:
  fixes a :: rat
  assumes "0 < a" "quotient_of a = (n, d)"
  shows "0 < n" "0 < d" "a = of_int n / of_int d"
proof -
  show d: "0 < d" using assms(2) quotient_of_denom_pos by blast
  show a: "a = of_int n / of_int d" using assms(2) by (simp add: quotient_of_div)
  show "0 < n" using assms(1) a d by (simp add: zero_less_divide_iff)
qed

lemma bitlen_powi_bounds:
  assumes "0 < n"
  shows "(2::rat) powi (bitlen n - 1) \<le> of_int n" "of_int n < (2::rat) powi (bitlen n)"
proof -
  from assms have b: "1 \<le> bitlen n" by (simp add: bitlen_alt_def)
  have "(2::int) ^ nat (bitlen n - 1) \<le> n" "n < 2 ^ nat (bitlen n)"
    using bitlen_bounds [OF assms] by auto
  then have "of_int ((2::int) ^ nat (bitlen n - 1)) \<le> (of_int n :: rat)"
    "(of_int n :: rat) < of_int (2 ^ nat (bitlen n))"
    by (simp_all only: of_int_le_iff of_int_less_iff)
  then show "(2::rat) powi (bitlen n - 1) \<le> of_int n" "of_int n < (2::rat) powi (bitlen n)"
    using b by (simp_all add: power_int_def)
qed

lemma ilog2_bounds:
  assumes "0 < a"
  shows "2 powi (ilog2 a) \<le> a \<and> a < 2 powi (ilog2 a + 1)"
proof -
  obtain n d where q: "quotient_of a = (n, d)" by (cases "quotient_of a")
  note p = quotient_of_pos [OF assms q]
  let ?e0 = "bitlen n - bitlen d"
  have n: "(2::rat) powi (bitlen n - 1) \<le> of_int n" "of_int n < (2::rat) powi (bitlen n)"
    using bitlen_powi_bounds [OF p(1)] by auto
  have d: "(2::rat) powi (bitlen d - 1) \<le> of_int d" "of_int d < (2::rat) powi (bitlen d)"
    using bitlen_powi_bounds [OF p(2)] by auto
  have dpos: "(0::rat) < of_int d" using p(2) by simp
  have up: "a < 2 powi (?e0 + 1)"
  proof -
    have "a * of_int d = of_int n" using p(3) dpos by simp
    also have "\<dots> < 2 powi (bitlen n)" by (rule n(2))
    also have "\<dots> = 2 powi (?e0 + 1) * 2 powi (bitlen d - 1)"
      by (simp flip: power_int_add)
    also have "\<dots> \<le> 2 powi (?e0 + 1) * of_int d"
      by (rule mult_left_mono [OF d(1)]) simp
    finally show ?thesis using dpos by simp
  qed
  have lo: "2 powi (?e0 - 1) \<le> a"
  proof -
    have "(2::rat) powi (?e0 - 1) * of_int d \<le> 2 powi (?e0 - 1) * 2 powi (bitlen d)"
      by (rule mult_left_mono) (use d(2) in simp_all)
    also have "\<dots> = 2 powi (bitlen n - 1)"
      by (simp flip: power_int_add)
    also have "\<dots> \<le> of_int n" by (rule n(1))
    also have "\<dots> = a * of_int d" using p(3) dpos by simp
    finally show ?thesis using dpos by simp
  qed
  show ?thesis
  proof (cases "2 powi ?e0 \<le> a")
    case True
    then have "ilog2 a = ?e0" by (simp add: ilog2_def q)
    with True up show ?thesis by simp
  next
    case False
    then have "ilog2 a = ?e0 - 1" by (simp add: ilog2_def q)
    with False lo show ?thesis by simp
  qed
qed

lemma ilog2_unique:
  assumes "2 powi e \<le> a" "a < 2 powi (e + 1)"
  shows "ilog2 a = e"
proof -
  have pos: "0 < a" using assms(1) by (rule less_le_trans [rotated]) simp
  note b = ilog2_bounds [OF pos]
  have "(2::rat) powi e < 2 powi (ilog2 a + 1)" using assms(1) b by linarith
  then have 1: "e < ilog2 a + 1"
    by (metis linorder_not_less one_le_numeral power_int_increasing)
  have "(2::rat) powi (ilog2 a) < 2 powi (e + 1)" using assms(2) b by linarith
  then have 2: "ilog2 a < e + 1"
    by (metis linorder_not_less one_le_numeral power_int_increasing)
  from 1 2 show ?thesis by simp
qed

lemma ilog2_mono:
  assumes "0 < a" "a \<le> b"
  shows "ilog2 a \<le> ilog2 b"
proof -
  have "0 < b" using assms by simp
  note ba = ilog2_bounds [OF assms(1)] and bb = ilog2_bounds [OF \<open>0 < b\<close>]
  have "(2::rat) powi (ilog2 a) < 2 powi (ilog2 b + 1)" using ba bb assms(2) by linarith
  then have "ilog2 a < ilog2 b + 1"
    by (metis linorder_not_less one_le_numeral power_int_increasing)
  then show ?thesis by simp
qed


lemma rne_of_int [simp]: "rne (of_int k) = k"
  by (simp add: rne_def)


lemma rne_le_int: "m \<le> of_int k \<Longrightarrow> rne m \<le> k"
proof -
  assume a: "m \<le> of_int k"
  show ?thesis
  proof (cases "m = of_int k")
    case True then show ?thesis by simp
  next
    case False
    with a have "m < of_int k" by simp
    then have "\<lfloor>m\<rfloor> < k" by (simp add: floor_less_iff)
    then have "\<lfloor>m\<rfloor> + 1 \<le> k" by simp
    moreover have "rne m \<le> \<lfloor>m\<rfloor> + 1" by (simp add: rne_def Let_def)
    ultimately show ?thesis by linarith
  qed
qed

lemma rne_ge_int: "of_int k \<le> m \<Longrightarrow> k \<le> rne m"
proof -
  assume "of_int k \<le> m"
  then have "k \<le> \<lfloor>m\<rfloor>" by (simp add: le_floor_iff)
  moreover have "\<lfloor>m\<rfloor> \<le> rne m" by (simp add: rne_def Let_def)
  ultimately show ?thesis by linarith
qed

lemma rne_mono: "m \<le> m' \<Longrightarrow> rne m \<le> rne m'"
proof -
  assume a: "m \<le> m'"
  then have f: "\<lfloor>m\<rfloor> \<le> \<lfloor>m'\<rfloor>" by (rule floor_mono)
  show ?thesis
  proof (cases "\<lfloor>m\<rfloor> = \<lfloor>m'\<rfloor>")
    case True
    with a show ?thesis by (auto simp: rne_def Let_def)
  next
    case False
    with f have "\<lfloor>m\<rfloor> + 1 \<le> \<lfloor>m'\<rfloor>" by simp
    moreover have "rne m \<le> \<lfloor>m\<rfloor> + 1" by (simp add: rne_def Let_def)
    moreover have "\<lfloor>m'\<rfloor> \<le> rne m'" by (simp add: rne_def Let_def)
    ultimately show ?thesis by linarith
  qed
qed

lemma fexp_pos: "0 < x \<Longrightarrow> fexp x = max (ilog2 x) (- 126) - 23"
  by (simp add: fexp_def)

lemma fl32_pos: "0 < x \<Longrightarrow> fl32 x = of_int (rne (x / 2 powi fexp x)) * 2 powi fexp x"
  by (simp add: fl32_def Let_def)

lemma fl32_zero [simp]: "fl32 0 = 0"
  by (simp add: fl32_def)

lemma fexp_minus [simp]: "fexp (- x) = fexp x"
  by (simp add: fexp_def)

lemma fl32_minus: "fl32 (- x) = - fl32 x"
  by (simp add: fl32_def Let_def sgn_minus)

lemma fl32_nonneg: "0 \<le> x \<Longrightarrow> 0 \<le> fl32 x"
proof -
  assume a: "0 \<le> x"
  show ?thesis
  proof (cases "x = 0")
    case True then show ?thesis by simp
  next
    case False
    with a have p: "0 < x" by simp
    have "(0::rat) \<le> x / 2 powi fexp x" using p by simp
    then have "0 \<le> rne (x / 2 powi fexp x)" using rne_ge_int [of 0] by simp
    then show ?thesis using p by (simp add: fl32_pos)
  qed
qed

lemma fexp_mono: "0 < x \<Longrightarrow> x \<le> y \<Longrightarrow> fexp x \<le> fexp y"
  using ilog2_mono [of x y] by (simp add: fexp_pos)

lemma fexp_upper: "0 < x \<Longrightarrow> x < 2 powi (fexp x + 24)"
proof -
  assume p: "0 < x"
  have "x < 2 powi (ilog2 x + 1)" using ilog2_bounds [OF p] by simp
  also have "\<dots> \<le> 2 powi (fexp x + 24)"
    by (rule power_int_increasing) (use p in \<open>simp_all add: fexp_pos\<close>)
  finally show ?thesis .
qed

lemma fl32_le_pow:
  assumes "0 < x"
  shows "fl32 x \<le> 2 powi (fexp x + 24)"
proof -
  have "x / 2 powi fexp x < 2 powi (fexp x + 24) / 2 powi fexp x"
    using fexp_upper [OF assms] by (simp add: divide_strict_right_mono)
  also have "\<dots> = of_int (2 ^ 24)"
    by (simp add: power_int_add)
  finally have "rne (x / 2 powi fexp x) \<le> 2 ^ 24"
    using rne_le_int [of "x / 2 powi fexp x" "2 ^ 24"] by simp
  then have "(of_int (rne (x / 2 powi fexp x)) :: rat) \<le> of_int (2 ^ 24)"
    by (simp only: of_int_le_iff)
  then have "of_int (rne (x / 2 powi fexp x)) * 2 powi fexp x \<le> of_int (2 ^ 24) * (2::rat) powi fexp x"
    by (rule mult_right_mono) simp
  also have "\<dots> = 2 powi (fexp x + 24)" by (simp add: power_int_add)
  finally show ?thesis using assms by (simp add: fl32_pos)
qed

lemma fl32_ge_pow:
  assumes "0 < x" "- 126 \<le> ilog2 x"
  shows "2 powi (ilog2 x) \<le> fl32 x"
proof -
  have e: "fexp x = ilog2 x - 23" using assms by (simp add: fexp_pos)
  have "2 powi (ilog2 x) \<le> x" using ilog2_bounds [OF assms(1)] by simp
  then have "2 powi (ilog2 x) / 2 powi fexp x \<le> x / 2 powi fexp x"
    by (simp add: divide_right_mono)
  moreover have "(2::rat) powi (ilog2 x) / 2 powi fexp x = of_int (2 ^ 23)"
    by (simp add: e power_int_diff)
  ultimately have "2 ^ 23 \<le> rne (x / 2 powi fexp x)"
    using rne_ge_int [of "2 ^ 23" "x / 2 powi fexp x"] by simp
  then have "(of_int (2 ^ 23) :: rat) \<le> of_int (rne (x / 2 powi fexp x))"
    by (simp only: of_int_le_iff)
  then have B: "of_int (2 ^ 23) * (2::rat) powi fexp x \<le> of_int (rne (x / 2 powi fexp x)) * 2 powi fexp x"
    by (rule mult_right_mono) simp
  have A: "of_int (2 ^ 23) * (2::rat) powi fexp x = 2 powi (ilog2 x)"
    by (simp add: e power_int_diff)
  show ?thesis unfolding fl32_pos [OF assms(1)] using A B by linarith
qed

lemma fl32_mono_pos:
  assumes "0 < x" "x \<le> y"
  shows "fl32 x \<le> fl32 y"
proof -
  have py: "0 < y" using assms by simp
  have le: "fexp x \<le> fexp y" using fexp_mono [OF assms] .
  show ?thesis
  proof (cases "fexp x = fexp y")
    case True
    have "x / 2 powi fexp y \<le> y / 2 powi fexp y"
      using assms(2) by (simp add: divide_right_mono)
    then have "rne (x / 2 powi fexp y) \<le> rne (y / 2 powi fexp y)" by (rule rne_mono)
    then have "(of_int (rne (x / 2 powi fexp y)) :: rat) \<le> of_int (rne (y / 2 powi fexp y))"
      by (simp only: of_int_le_iff)
    then have "of_int (rne (x / 2 powi fexp y)) * (2::rat) powi fexp y
        \<le> of_int (rne (y / 2 powi fexp y)) * 2 powi fexp y"
      by (rule mult_right_mono) simp
    then show ?thesis using assms py True by (simp add: fl32_pos)
  next
    case False
    with le have lt: "fexp x < fexp y" by simp
    have big: "- 126 \<le> ilog2 y" "fexp y = ilog2 y - 23"
      using lt assms(1) py by (auto simp: fexp_pos max_def split: if_splits)
    have "fl32 x \<le> 2 powi (fexp x + 24)" by (rule fl32_le_pow [OF assms(1)])
    also have "\<dots> \<le> 2 powi (ilog2 y)"
      by (rule power_int_increasing) (use lt big in simp_all)
    also have "\<dots> \<le> fl32 y" by (rule fl32_ge_pow [OF py big(1)])
    finally show ?thesis .
  qed
qed

lemma fl32_mono: "x \<le> y \<Longrightarrow> fl32 x \<le> fl32 y"
proof -
  assume a: "x \<le> y"
  consider "0 < x" | "x \<le> 0" "0 \<le> y" | "y < 0" by linarith
  then show ?thesis
  proof cases
    case 1 then show ?thesis using a by (rule fl32_mono_pos)
  next
    case 2
    have "fl32 x = - fl32 (- x)" by (simp add: fl32_minus)
    moreover have "0 \<le> fl32 (- x)" using 2 by (intro fl32_nonneg) simp
    moreover have "0 \<le> fl32 y" using 2 by (intro fl32_nonneg)
    ultimately show ?thesis by linarith
  next
    case 3
    then have "fl32 (- y) \<le> fl32 (- x)" using a by (intro fl32_mono_pos) simp_all
    then show ?thesis by (simp add: fl32_minus)
  qed
qed


lemma powi_less_imp_less: "(2::rat) powi a < 2 powi b \<Longrightarrow> a < b"
  by (metis linorder_not_less one_le_numeral power_int_increasing)

lemma fl32_exact_pos:
  assumes "0 < x" "x = of_int m * 2 powi j" "- 149 \<le> j" "x < 2 powi (j + 24)"
  shows "fl32 x = x"
proof -
  define e where "e = fexp x"
  define q where "q = (2::rat) powi e"
  define B where "B = m * 2 ^ nat (j - e)"
  have q: "0 < q" by (simp add: q_def)
  have "2 powi (ilog2 x) \<le> x" using ilog2_bounds [OF assms(1)] by simp
  with assms(4) have "(2::rat) powi (ilog2 x) < 2 powi (j + 24)" by linarith
  then have "ilog2 x < j + 24" by (rule powi_less_imp_less)
  with assms(3) have le: "e \<le> j" using assms(1) by (simp add: fexp_pos e_def)
  have "(2::rat) powi j = 2 powi (j - e) * q"
    by (simp add: q_def flip: power_int_add)
  also have "(2::rat) powi (j - e) = of_int (2 ^ nat (j - e))"
    using le by (simp add: power_int_def)
  finally have x: "x = of_int B * q"
    using assms(2) by (simp add: B_def)
  then have "x / q = of_int B" using q by simp
  then have r: "rne (x / q) = B" by (simp only: rne_of_int)
  have "fl32 x = of_int (rne (x / q)) * q"
    using assms(1) by (simp add: fl32_pos q_def e_def)
  also have "\<dots> = of_int B * q" by (simp only: r)
  also have "\<dots> = x" by (simp only: x [symmetric])
  finally show ?thesis .
qed

lemma fl32_exact:
  assumes "x = of_int m * 2 powi j" "- 149 \<le> j" "\<bar>x\<bar> < 2 powi (j + 24)"
  shows "fl32 x = x"
proof -
  consider "x = 0" | "0 < x" | "x < 0" by linarith
  then show ?thesis
  proof cases
    case 1 then show ?thesis by simp
  next
    case 2 then show ?thesis using assms by (intro fl32_exact_pos [of x m j]) simp_all
  next
    case 3
    then have "fl32 (- x) = - x"
      using assms by (intro fl32_exact_pos [of "- x" "- m" j]) simp_all
    then show ?thesis by (simp add: fl32_minus)
  qed
qed

lemma fl32_of_int:
  assumes "\<bar>n\<bar> \<le> 2 ^ 24"
  shows "fl32 (of_int n) = of_int n"
proof (cases "\<bar>n\<bar> = 2 ^ 24")
  case True
  then have "n = 2 ^ 24 \<or> n = - (2 ^ 24)" by linarith
  then show ?thesis
  proof
    assume "n = 2 ^ 24"
    then show ?thesis using fl32_exact [of "of_int n" 1 24] by simp
  next
    assume "n = - (2 ^ 24)"
    then show ?thesis using fl32_exact [of "of_int n" "- 1" 24] by simp
  qed
next
  case False
  with assms have "\<bar>n\<bar> < 2 ^ 24" by simp
  then have "\<bar>of_int n :: rat\<bar> < of_int (2 ^ 24)" by (simp only: of_int_abs [symmetric] of_int_less_iff)
  then show ?thesis using fl32_exact [of "of_int n" n 0] by simp
qed

lemma float_of_int_exact: "\<bar>n\<bar> \<le> 2 ^ 24 \<Longrightarrow> float_of_int n = of_int n"
  by (simp add: float_of_int_def fl32_of_int)

lemma fl32_half:
  assumes "\<bar>2 * k + 1\<bar> < 2 ^ 24"
  shows "fl32 (of_int k + 1/2) = of_int k + 1/2"
proof -
  have e: "(of_int k + 1/2 :: rat) = of_int (2 * k + 1) * 2 powi (- 1)"
    by (simp add: field_simps)
  have "\<bar>of_int (2 * k + 1) :: rat\<bar> < of_int (2 ^ 24)"
    using assms by (simp only: of_int_abs [symmetric] of_int_less_iff)
  then have "\<bar>of_int k + 1/2 :: rat\<bar> < 2 powi (- 1 + 24)"
    unfolding e by (simp add: abs_mult)
  then show ?thesis using fl32_exact [OF e, simplified] by simp
qed



subsection \<open>Conversion to int and ROUND\<close>

lemma int_of_float_nonneg:
  "0 \<le> x \<Longrightarrow> x < 2 ^ 31 \<Longrightarrow> int_of_float x = Inr \<lfloor>x\<rfloor>"
proof -
  assume a: "0 \<le> x" "x < 2 ^ 31"
  have "0 \<le> \<lfloor>x\<rfloor>" using a(1) by simp
  moreover have "\<lfloor>x\<rfloor> < 2 ^ 31" using a(2) by (simp add: floor_less_iff)
  ultimately show ?thesis using a(1) by (simp add: int_of_float_def Let_def)
qed

lemma fl32_le_float: "x \<le> y \<Longrightarrow> fl32 y = y \<Longrightarrow> fl32 x \<le> y"
  using fl32_mono [of x y] by simp

lemma fl32_ge_float: "y \<le> x \<Longrightarrow> fl32 y = y \<Longrightarrow> y \<le> fl32 x"
  using fl32_mono [of y x] by simp

lemma fl32_half_small: "- 1 \<le> k \<Longrightarrow> k < 4194304 \<Longrightarrow> fl32 (of_int k + 1/2) = of_int k + 1/2"
  by (rule fl32_half) simp

lemma fl32_int_small: "0 \<le> k \<Longrightarrow> k \<le> 4194304 \<Longrightarrow> fl32 (of_int k) = of_int k"
  by (rule fl32_of_int) simp

text \<open>
  \<open>ROUND\<close> of a float \<open>x\<close> between 0 and \<open>2 ^ 22\<close> is the floor of the rounded sum
  \<open>0.5f + x\<close>; it respects bounds of \<open>x\<close> that are integers or half-integers.
\<close>

lemma ROUND_small:
  assumes "0 \<le> x" "x \<le> 4194304"
  shows "ROUND x = Inr \<lfloor>fl32 (1/2 + x)\<rfloor>"
proof -
  have "fl32 0 \<le> fl32 (1/2 + x)" by (rule fl32_mono) (use assms in simp)
  then have nn: "0 \<le> fl32 (1/2 + x)" by simp
  have "fl32 (of_int 4194304 + 1/2) = of_int 4194304 + 1/2"
    by (rule fl32_half) simp
  then have "fl32 (1/2 + x) \<le> of_int 4194304 + 1/2"
    by (intro fl32_le_float) (use assms in simp_all)
  then have "fl32 (1/2 + x) < 2 ^ 31" by simp
  with nn show ?thesis unfolding ROUND_def fadd_def by (rule int_of_float_nonneg)
qed

lemma ROUND_ge:
  assumes "of_int a - 1/2 \<le> x" "0 \<le> a" "a \<le> 4194304"
  shows "a \<le> \<lfloor>fl32 (1/2 + x)\<rfloor>"
proof -
  have "of_int a \<le> 1/2 + x" using assms(1) by linarith
  then have "of_int a \<le> fl32 (1/2 + x)"
    by (rule fl32_ge_float) (rule fl32_int_small [OF assms(2,3)])
  then show ?thesis by (simp add: le_floor_iff)
qed

lemma ROUND_le_half:
  assumes "x \<le> of_int b + 1/2" "0 \<le> b" "b < 4194304"
  shows "\<lfloor>fl32 (1/2 + x)\<rfloor> \<le> b + 1"
proof -
  have "1/2 + x \<le> of_int (b + 1)" using assms(1) by simp
  then have "fl32 (1/2 + x) \<le> of_int (b + 1)"
    by (rule fl32_le_float) (rule fl32_int_small, use assms in linarith, use assms in linarith)
  then show ?thesis by (simp add: floor_le_iff)
qed

lemma ROUND_le_int:
  assumes "x \<le> of_int b" "0 \<le> b" "b < 4194304"
  shows "\<lfloor>fl32 (1/2 + x)\<rfloor> \<le> b"
proof -
  have "1/2 + x \<le> of_int b + 1/2" using assms(1) by simp
  then have "fl32 (1/2 + x) \<le> of_int b + 1/2"
    by (rule fl32_le_float) (rule fl32_half_small, use assms in linarith, use assms in linarith)
  then have "fl32 (1/2 + x) < of_int b + 1" by linarith
  then show ?thesis by (simp add: floor_less_iff flip: zle_add1_eq_le) 
qed

subsection \<open>Loops over an index range\<close>

text \<open>
  A loop whose iterations rewrite pairwise disjoint blocks of an array, each element \<open>j\<close> of
  a block by a function \<open>G j\<close> of its old value, rewrites the union of the blocks.
\<close>

lemma foldE_disjoint_updates:
  assumes step: "\<And>x s. x \<in> set xs \<Longrightarrow> length s = N \<Longrightarrow>
      \<exists>s1. f x s = Inr s1 \<and> length s1 = N \<and> (\<forall>j<N. s1 ! j = (if j \<in> B x then G j (s ! j) else s ! j))"
    and dist: "distinct xs"
    and disj: "\<And>x y. x \<in> set xs \<Longrightarrow> y \<in> set xs \<Longrightarrow> x \<noteq> y \<Longrightarrow> B x \<inter> B y = {}"
    and len: "length s = N"
  shows "\<exists>s'. foldE f xs s = Inr s' \<and> length s' = N \<and>
           (\<forall>j<N. s' ! j = (if j \<in> (\<Union>x\<in>set xs. B x) then G j (s ! j) else s ! j))"
  using assms
proof (induction xs arbitrary: s)
  case Nil
  then show ?case by simp
next
  case (Cons x xs)
  from Cons.prems(1) [of x s] Cons.prems(4)
  obtain s1 where s1: "f x s = Inr s1" "length s1 = N"
    "\<forall>j<N. s1 ! j = (if j \<in> B x then G j (s ! j) else s ! j)" by auto
  have "\<exists>s'. foldE f xs s1 = Inr s' \<and> length s' = N \<and>
           (\<forall>j<N. s' ! j = (if j \<in> (\<Union>x\<in>set xs. B x) then G j (s1 ! j) else s1 ! j))"
  proof (rule Cons.IH)
    show "\<And>x s. x \<in> set xs \<Longrightarrow> length s = N \<Longrightarrow>
      \<exists>s1. f x s = Inr s1 \<and> length s1 = N \<and> (\<forall>j<N. s1 ! j = (if j \<in> B x then G j (s ! j) else s ! j))"
      using Cons.prems(1) by simp
    show "distinct xs" using Cons.prems(2) by simp
    show "\<And>x y. x \<in> set xs \<Longrightarrow> y \<in> set xs \<Longrightarrow> x \<noteq> y \<Longrightarrow> B x \<inter> B y = {}"
      using Cons.prems(3) by simp
    show "length s1 = N" by (rule s1(2))
  qed
  then obtain s' where s': "foldE f xs s1 = Inr s'" "length s' = N"
    "\<forall>j<N. s' ! j = (if j \<in> (\<Union>x\<in>set xs. B x) then G j (s1 ! j) else s1 ! j)" by auto
  have out: "\<And>j y. y \<in> set xs \<Longrightarrow> j \<in> B y \<Longrightarrow> j \<notin> B x"
  proof -
    fix j y assume y: "y \<in> set xs" "j \<in> B y"
    have "x \<noteq> y" using Cons.prems(2) y(1) by auto
    then have "B x \<inter> B y = {}" using Cons.prems(3) [of x y] y(1) by simp
    with y(2) show "j \<notin> B x" by auto
  qed
  have "\<forall>j<N. s' ! j = (if j \<in> (\<Union>x\<in>set (x # xs). B x) then G j (s ! j) else s ! j)"
  proof (intro allI impI)
    fix j assume j: "j < N"
    show "s' ! j = (if j \<in> (\<Union>x\<in>set (x # xs). B x) then G j (s ! j) else s ! j)"
    proof (cases "j \<in> (\<Union>x\<in>set xs. B x)")
      case True
      then have "j \<notin> B x" using out by auto
      with True s'(3) s1(3) j show ?thesis by simp
    next
      case False
      with s'(3) s1(3) j show ?thesis by simp
    qed
  qed
  with s1(1) s'(1,2) show ?case by simp
qed


subsection \<open>The scaled column of init_image\<close>

lemma float_of_int_nonzero: "n \<noteq> 0 \<Longrightarrow> float_of_int n \<noteq> 0"
proof -
  assume "n \<noteq> 0"
  then consider "1 \<le> n" | "n \<le> - 1" by linarith
  then show ?thesis
  proof cases
    case 1
    then have "fl32 (of_int 1) \<le> fl32 (of_int n)" by (intro fl32_mono) simp
    moreover have "fl32 (of_int 1) = of_int 1" by (rule fl32_of_int) simp
    ultimately show ?thesis by (simp add: float_of_int_def)
  next
    case 2
    then have "fl32 (of_int n) \<le> fl32 (of_int (- 1))" by (intro fl32_mono) simp
    moreover have "fl32 (of_int (- 1)) = of_int (- 1)" by (rule fl32_of_int) simp
    ultimately show ?thesis by (simp add: float_of_int_def)
  qed
qed












subsection \<open>Cells, rows and the grid under normalize\<close>

lemma normalize_cell_eq:
  assumes y: "0 \<le> y" "y < int (length (yadds i))"
    and k: "0 \<le> y * i_width i + x" "y * i_width i + x < int (length px)"
  shows "normalize_cell i y x px = Inr (px[nat (y * i_width i + x) :=
    (if yadds i ! nat y \<noteq> 0
     then fl32 (px ! nat (y * i_width i + x) / float_of_int (yadds i ! nat y))
     else px ! nat (y * i_width i + x))])"
  using assms float_of_int_nonzero [of "yadds i ! nat y"]
  by (simp add: normalize_cell_def rd_def wr_def bindE_def fdiv_def)

lemma row_index:
  fixes W :: nat
  assumes "x < W"
  shows "(y * W + x) div W = y"
  using assms by simp

lemma normalize_row_eq:
  fixes i :: Image
  defines "W \<equiv> nat (i_width i)" and "H \<equiv> nat (i_height i)"
  defines "G \<equiv> (\<lambda>j v. if yadds i ! (j div W) \<noteq> 0 then fl32 (v / float_of_int (yadds i ! (j div W))) else v)"
  assumes w: "1 \<le> i_width i" and ya: "length (yadds i) = H"
    and y: "y < H" and len: "length px = W * H"
  shows "\<exists>px'. normalize_row i (int y) px = Inr px' \<and> length px' = W * H \<and>
           (\<forall>j<W * H. px' ! j = (if j \<in> {y * W ..< y * W + W} then G j (px ! j) else px ! j))"
proof -
  have Wpos: "0 < W" using w by (simp add: W_def)
  have iw: "i_width i = int W" using w by (simp add: W_def)
  have "\<exists>px'. foldE (normalize_cell i (int y)) (upto_int (i_width i)) px = Inr px' \<and> length px' = W * H \<and>
     (\<forall>j<W * H. px' ! j = (if j \<in> (\<Union>x\<in>set (upto_int (i_width i)). {y * W + nat x}) then G j (px ! j) else px ! j))"
  proof (rule foldE_disjoint_updates)
    fix x and s :: "rat list"
    assume x: "x \<in> set (upto_int (i_width i))" and l: "length s = W * H"
    then have r: "0 \<le> x" "x < int W" by (auto simp: upto_int_def iw)
    have "y * W + nat x < y * W + W" using r by simp
    also have "\<dots> = (y + 1) * W" by simp
    also have "\<dots> \<le> H * W" using y by (intro mult_le_mono1) simp
    finally have in_range: "y * W + nat x < W * H" by (simp add: mult.commute)
    have idx: "nat (int y * i_width i + x) = y * W + nat x"
      using r by (simp add: iw nat_add_distrib nat_mult_distrib)
    have d: "(y * W + nat x) div W = y" using r by simp
    have "normalize_cell i (int y) x s = Inr (s[nat (int y * i_width i + x) :=
       (if yadds i ! nat (int y) \<noteq> 0
        then fl32 (s ! nat (int y * i_width i + x) / float_of_int (yadds i ! nat (int y)))
        else s ! nat (int y * i_width i + x))])"
    proof (rule normalize_cell_eq)
      show "0 \<le> int y" by simp
      show "int y < int (length (yadds i))" using y ya by simp
      show "0 \<le> int y * i_width i + x" using r by (simp add: iw)
      have e: "int y * i_width i + x = int (y * W + nat x)" using r by (simp add: iw)
      show "int y * i_width i + x < int (length s)"
        unfolding e l using in_range by (simp only: of_nat_less_iff)
    qed
    then have "normalize_cell i (int y) x s = Inr (s[y * W + nat x := G (y * W + nat x) (s ! (y * W + nat x))])"
      by (simp add: idx G_def d)
    then show "\<exists>s1. normalize_cell i (int y) x s = Inr s1 \<and> length s1 = W * H \<and>
        (\<forall>j<W * H. s1 ! j = (if j \<in> {y * W + nat x} then G j (s ! j) else s ! j))"
      using l in_range by (auto simp: nth_list_update)
  next
    show "distinct (upto_int (i_width i))" by (simp add: upto_int_def distinct_map inj_on_def)
  next
    fix a b assume "a \<in> set (upto_int (i_width i))" "b \<in> set (upto_int (i_width i))" "a \<noteq> b"
    then show "{y * W + nat a} \<inter> {y * W + nat b} = {}" by (auto simp: upto_int_def)
  qed (rule len)
  moreover have "(\<Union>x\<in>set (upto_int (i_width i)). {y * W + nat x}) = {y * W ..< y * W + W}"
  proof -
    have "\<And>j. y * W \<le> j \<Longrightarrow> j < y * W + W \<Longrightarrow> \<exists>x\<in>{0..<W}. j = y * W + x"
    proof -
      fix j assume "y * W \<le> j" "j < y * W + W"
      then have "j - y * W \<in> {0..<W}" "j = y * W + (j - y * W)" by auto
      then show "\<exists>x\<in>{0..<W}. j = y * W + x" by blast
    qed
    then show ?thesis by (auto simp: upto_int_def iw)
  qed
  ultimately show ?thesis by (simp add: normalize_row_def)
qed


lemma normalize_eq:
  fixes i :: Image
  defines "W \<equiv> nat (i_width i)" and "H \<equiv> nat (i_height i)"
  defines "G \<equiv> (\<lambda>j v. if yadds i ! (j div W) \<noteq> 0 then fl32 (v / float_of_int (yadds i ! (j div W))) else v)"
  assumes w: "1 \<le> i_width i" and h: "1 \<le> i_height i"
    and ya: "length (yadds i) = H" and len: "length (pixel i) = W * H"
  shows "\<exists>px'. normalize i = Inr (i\<lparr>pixel := px'\<rparr>) \<and> length px' = W * H \<and>
           (\<forall>j<W * H. px' ! j = G j (pixel i ! j))"
proof -
  have Wpos: "0 < W" using w by (simp add: W_def)
  have ih: "i_height i = int H" using h by (simp add: H_def)
  have "\<exists>px'. foldE (normalize_row i) (upto_int (i_height i)) (pixel i) = Inr px' \<and> length px' = W * H \<and>
     (\<forall>j<W * H. px' ! j = (if j \<in> (\<Union>y\<in>set (upto_int (i_height i)). {nat y * W ..< nat y * W + W})
        then G j (pixel i ! j) else pixel i ! j))"
  proof (rule foldE_disjoint_updates)
    fix y and s :: "rat list"
    assume y: "y \<in> set (upto_int (i_height i))" and l: "length s = W * H"
    then have r: "0 \<le> y" "nat y < H" by (auto simp: upto_int_def ih)
    have e: "int (nat y) = y" using r(1) by simp
    note nr = normalize_row_eq [of i "nat y" s, OF w, folded W_def H_def, OF ya r(2) l, unfolded e]
    show "\<exists>s1. normalize_row i y s = Inr s1 \<and> length s1 = W * H \<and>
        (\<forall>j<W * H. s1 ! j = (if j \<in> {nat y * W ..< nat y * W + W} then G j (s ! j) else s ! j))"
      unfolding G_def by (rule nr)
  next
    show "distinct (upto_int (i_height i))" by (simp add: upto_int_def distinct_map inj_on_def)
  next
    fix a b assume ab: "a \<in> set (upto_int (i_height i))" "b \<in> set (upto_int (i_height i))" "a \<noteq> b"
    then have n: "nat a \<noteq> nat b" by (auto simp: upto_int_def)
    show "{nat a * W ..< nat a * W + W} \<inter> {nat b * W ..< nat b * W + W} = {}"
    proof (rule ccontr)
      assume "{nat a * W ..< nat a * W + W} \<inter> {nat b * W ..< nat b * W + W} \<noteq> {}"
      then obtain j where "j \<in> {nat a * W ..< nat a * W + W} \<inter> {nat b * W ..< nat b * W + W}"
        by blast
      then have j: "nat a * W \<le> j" "j < nat a * W + W" "nat b * W \<le> j" "j < nat b * W + W"
        by simp_all
      have "j div W = nat a"
        using j(1,2) Wpos by (metis add.commute div_nat_eqI mult.commute mult_Suc_right)
      moreover have "j div W = nat b"
        using j(3,4) Wpos by (metis add.commute div_nat_eqI mult.commute mult_Suc_right)
      ultimately show False using n by simp
    qed
  qed (rule len)
  moreover have "\<And>j. j < W * H \<Longrightarrow> j \<in> (\<Union>y\<in>set (upto_int (i_height i)). {nat y * W ..< nat y * W + W})"
  proof -
    fix j assume j: "j < W * H"
    have d: "j div W < H" using j Wpos by (simp add: less_mult_imp_div_less mult.commute)
    have "(j div W) * W \<le> j" by simp
    moreover have "j < (j div W) * W + W"
      using Wpos by (metis add.commute dividend_less_div_times)
    moreover have "int (j div W) \<in> set (upto_int (i_height i))" using d by (simp add: upto_int_def ih)
    ultimately show "j \<in> (\<Union>y\<in>set (upto_int (i_height i)). {nat y * W ..< nat y * W + W})"
      by (intro UN_I [of "int (j div W)"]) simp_all
  qed
  ultimately show ?thesis by (auto simp: normalize_def bindE_def)
qed

subsection \<open>The characters and lines of print_image\<close>

lemma palette_index_round:
  assumes L: "2 \<le> L" "L \<le> 256" and chars: "chars = L - 1"
    and i: "0 \<le> cell" "cell \<le> 1"
  shows "\<exists>pos k. palette_index g chars cell = Inr k
           \<and> k = (if invert g = 0 then chars - pos else pos)
           \<and> pos = \<lfloor>fl32 (1/2 + fl32 (of_int chars * cell))\<rfloor>
           \<and> \<lfloor>of_int chars * cell + 1/2\<rfloor> \<le> pos
           \<and> pos \<le> \<lfloor>of_int chars * cell + 1/2\<rfloor> + 1
           \<and> 0 \<le> k \<and> k \<le> L - 1
           \<and> (cell = 0 \<and> invert g = 0 \<longrightarrow> k = chars)"
proof -
  define P where "P = of_int chars * cell"
  define r where "r = \<lfloor>P + 1/2\<rfloor>"
  define pos where "pos = \<lfloor>fl32 (1/2 + fl32 P)\<rfloor>"
  have c: "1 \<le> chars" "chars \<le> 255" using L chars by simp_all
  have P0: "0 \<le> P" using c i by (simp add: P_def)
  have "of_int chars * cell \<le> of_int chars * 1"
    by (rule mult_left_mono) (use c i in simp_all)
  then have Pc: "P \<le> of_int chars" by (simp add: P_def)
  have "fl32 0 \<le> fl32 P" by (rule fl32_mono [OF P0])
  then have p0: "0 \<le> fl32 P" by simp
  have pc: "fl32 P \<le> of_int chars"
    by (rule fl32_le_float [OF Pc]) (rule fl32_int_small, use c in linarith, use c in linarith)
  have "(of_int chars :: rat) \<le> of_int 4194304" using c by (simp only: of_int_le_iff)
  with pc have small: "fl32 P \<le> 4194304" by simp
  have fc: "float_of_int chars = of_int chars"
    by (rule float_of_int_exact) (use c in simp)
  have R: "ROUND (fl32 P) = Inr pos"
    unfolding pos_def by (rule ROUND_small [OF p0 small])
  have r0: "0 \<le> r" using P0 by (simp add: r_def)
  have rc: "r \<le> chars"
  proof -
    have "P + 1/2 < of_int (chars + 1)" using Pc by simp
    then have "\<lfloor>P + 1/2\<rfloor> < chars + 1" by (simp only: floor_less_iff)
    then show ?thesis by (simp add: r_def)
  qed
  have rl: "of_int r \<le> P + 1/2" and ru: "P + 1/2 < of_int r + 1"
    unfolding r_def by linarith+
  have "of_int r - 1/2 \<le> fl32 P"
  proof -
    have "fl32 (of_int (r - 1) + 1/2) = of_int (r - 1) + 1/2"
      by (rule fl32_half_small) (use r0 rc c in linarith)+
    then have "fl32 (of_int r - 1/2) = of_int r - 1/2" by simp
    moreover have "of_int r - 1/2 \<le> P" using rl by linarith
    ultimately show ?thesis by (rule fl32_ge_float [rotated])
  qed
  then have lo: "r \<le> pos"
    unfolding pos_def by (rule ROUND_ge) (use r0 rc c in linarith)+
  have "fl32 P \<le> of_int r + 1/2"
  proof -
    have "fl32 (of_int r + 1/2) = of_int r + 1/2"
      by (rule fl32_half_small) (use r0 rc c in linarith)+
    moreover have "P \<le> of_int r + 1/2" using ru by linarith
    ultimately show ?thesis by (rule fl32_le_float [rotated])
  qed
  then have hi: "pos \<le> r + 1"
    unfolding pos_def by (rule ROUND_le_half) (use r0 rc c in linarith)+
  have le: "pos \<le> chars"
    unfolding pos_def by (rule ROUND_le_int [OF pc]) (use c in linarith)+
  have ge: "0 \<le> pos" using lo r0 by linarith
  have z: "cell = 0 \<longrightarrow> pos = 0"
  proof
    assume "cell = 0"
    then have "fl32 P = of_int 0" by (simp add: P_def)
    then have "pos \<le> 0" unfolding pos_def by (intro ROUND_le_int) simp_all
    with ge show "pos = 0" by simp
  qed
  have "palette_index g chars cell = Inr (if invert g = 0 then chars - pos else pos)"
    using R by (simp add: palette_index_def fmul_def fc bindE_def P_def)
  moreover have "0 \<le> (if invert g = 0 then chars - pos else pos)"
    "(if invert g = 0 then chars - pos else pos) \<le> L - 1"
    using le ge chars by auto
  moreover have "cell = 0 \<and> invert g = 0 \<longrightarrow> (if invert g = 0 then chars - pos else pos) = chars"
    using z by simp
  moreover have "pos = \<lfloor>fl32 (1/2 + fl32 (of_int chars * cell))\<rfloor>"
    by (simp add: pos_def P_def)
  moreover have "\<lfloor>of_int chars * cell + 1/2\<rfloor> \<le> pos" "pos \<le> \<lfloor>of_int chars * cell + 1/2\<rfloor> + 1"
    using lo hi by (simp_all add: r_def P_def)
  ultimately show ?thesis by blast
qed

lemma strlen_nth: "k < strlen buf \<Longrightarrow> k < length buf \<and> buf ! k \<noteq> NUL"
proof -
  assume k: "k < strlen buf"
  then have l: "k < length (takeWhile (\<lambda>c. c \<noteq> NUL) buf)" by (simp add: strlen_def)
  have "k < length buf" using l length_takeWhile_le [of "\<lambda>c. c \<noteq> NUL" buf] by linarith
  moreover have "buf ! k \<noteq> NUL" using nth_length_takeWhile l
    by (metis (mono_tags, lifting) nth_mem set_takeWhileD takeWhile_nth)
  ultimately show ?thesis by simp
qed

lemma cell_char_flags [simp]:
  "cell_char (g\<lparr>flipx := a\<rparr>) i chars = cell_char g i chars"
  "cell_char (g\<lparr>flipy := b\<rparr>) i chars = cell_char g i chars"
  by (simp_all add: cell_char_def palette_index_def fun_eq_iff)

lemma print_image_cell_eq:
  fixes i :: Image
  defines "W \<equiv> nat (i_width i)" and "H \<equiv> nat (i_height i)"
  assumes w: "1 \<le> i_width i" and h: "1 \<le> i_height i"
    and len: "length (pixel i) = W * H"
    and cells: "\<forall>v\<in>set (pixel i). 0 \<le> v \<and> v \<le> 1"
    and pal: "int (strlen (ascii_palette g)) = chars + 1" "1 \<le> chars" "chars \<le> 255"
    and y: "y < H" and x: "x < W" and line: "length line = W + 1"
  shows "print_image_cell g i chars (int y) (int x) line =
    Inr (line[(if flipx g = 0 then x else W - x - 1) :=
           cell_char g i chars (if flipy g = 0 then y else H - y - 1) x])
    \<and> cell_char g i chars (if flipy g = 0 then y else H - y - 1) x \<noteq> NUL"
proof -
  define r where "r = (if flipy g = 0 then y else H - y - 1)"
  have iw: "i_width i = int W" using w by (simp add: W_def)
  have ih: "i_height i = int H" using h by (simp add: H_def)
  have rH: "r < H" using y by (simp add: r_def)
  have ri: "(if flipy g = 0 then int y else i_height i - int y - 1) = int r"
    using y by (simp add: r_def ih)
  have "r * W + x < r * W + W" using x by simp
  also have "\<dots> = (r + 1) * W" by simp
  also have "\<dots> \<le> H * W" using rH by (intro mult_le_mono1) simp
  finally have in_range: "r * W + x < W * H" by (simp add: mult.commute)
  define v where "v = pixel i ! (r * W + x)"
  have "v \<in> set (pixel i)" unfolding v_def using in_range len by simp
  then have v01: "0 \<le> v" "v \<le> 1" using cells by auto
  have rdp: "rd (pixel i) (int r * i_width i + int x) = Inr v"
  proof -
    have e: "int r * i_width i + int x = int (r * W + x)" by (simp add: iw)
    have "int (r * W + x) < int (length (pixel i))"
      unfolding len using in_range by (simp only: of_nat_less_iff)
    then show ?thesis unfolding e rd_def v_def by (simp only: of_nat_0_le_iff nat_int if_True simp_thms)
  qed
  from palette_index_round [of "chars + 1" chars v g] pal v01
  obtain k where k: "palette_index g chars v = Inr k" "0 \<le> k" "k \<le> chars" by auto
  have "nat k < strlen (ascii_palette g)" using k pal by linarith
  then have pk: "nat k < length (ascii_palette g)" "ascii_palette g ! nat k \<noteq> NUL"
    using strlen_nth by blast+
  have rdk: "rd (ascii_palette g) k = Inr (ascii_palette g ! nat k)"
    using k pk by (simp add: rd_def)
  have cc: "cell_char g i chars r x = ascii_palette g ! nat k"
    using k by (simp add: cell_char_def v_def W_def)
  have pos: "(if flipx g = 0 then int x else i_width i - int x - 1) = int (if flipx g = 0 then x else W - x - 1)"
    using x by (simp add: iw)
  have "(if flipx g = 0 then x else W - x - 1) < length line" using x line by auto
  then have "print_image_cell g i chars (int y) (int x) line =
    Inr (line[(if flipx g = 0 then x else W - x - 1) := cell_char g i chars r x])"
    unfolding print_image_cell_def ri rdp pos by (simp add: bindE_def k rdk wr_def cc)
  then show ?thesis using pk cc by (simp add: r_def)
qed


lemma print_image_row_eq:
  fixes i :: Image
  defines "W \<equiv> nat (i_width i)" and "H \<equiv> nat (i_height i)"
  assumes w: "1 \<le> i_width i" and h: "1 \<le> i_height i"
    and len: "length (pixel i) = W * H"
    and cells: "\<forall>v\<in>set (pixel i). 0 \<le> v \<and> v \<le> 1"
    and pal: "int (strlen (ascii_palette g)) = chars + 1" "1 \<le> chars" "chars \<le> 255"
    and y: "y < H" and line: "length line = W + 1" "line ! W = NUL"
  shows "\<exists>line'. print_image_row g i chars (int y) (line, out) =
            Inr (line', out @ [row_text g i chars y @ [newline]])
          \<and> length line' = W + 1 \<and> line' ! W = NUL"
proof -
  define r where "r = (if flipy g = 0 then y else H - y - 1)"
  define pos where "pos = (\<lambda>x. if flipx g = 0 then x else W - x - 1)"
  define G where "G = (\<lambda>j (v::char). cell_char g i chars r (pos j))"
  have iw: "i_width i = int W" using w by (simp add: W_def)
  have pp: "\<And>x. x < W \<Longrightarrow> pos x < W \<and> pos (pos x) = x" by (auto simp: pos_def)
  have "\<exists>s'. foldE (print_image_cell g i chars (int y)) (upto_int (i_width i)) line = Inr s' \<and>
     length s' = W + 1 \<and>
     (\<forall>j<W + 1. s' ! j = (if j \<in> (\<Union>x\<in>set (upto_int (i_width i)). {pos (nat x)}) then G j (line ! j) else line ! j))"
  proof (rule foldE_disjoint_updates)
    fix x and s :: string
    assume x: "x \<in> set (upto_int (i_width i))" and l: "length s = W + 1"
    then have xr: "0 \<le> x" "nat x < W" by (auto simp: upto_int_def iw)
    have e: "int (nat x) = x" using xr by simp
    note pc = print_image_cell_eq [of i g chars y "nat x" s, OF w h, folded W_def H_def,
        OF len cells pal y xr(2) l, unfolded e]
    have c: "print_image_cell g i chars (int y) x s = Inr (s[pos (nat x) := cell_char g i chars r (nat x)])"
      unfolding pos_def r_def by (rule pc [THEN conjunct1])
    have "pos (nat x) < W + 1" using pp [OF xr(2)] by simp
    then show "\<exists>s1. print_image_cell g i chars (int y) x s = Inr s1 \<and> length s1 = W + 1 \<and>
        (\<forall>j<W + 1. s1 ! j = (if j \<in> {pos (nat x)} then G j (s ! j) else s ! j))"
      using c l pp [OF xr(2)] by (auto simp: nth_list_update G_def)
  next
    show "distinct (upto_int (i_width i))" by (simp add: upto_int_def distinct_map inj_on_def)
  next
    fix a b assume ab: "a \<in> set (upto_int (i_width i))" "b \<in> set (upto_int (i_width i))" "a \<noteq> b"
    then have "nat a < W" "nat b < W" "nat a \<noteq> nat b" by (auto simp: upto_int_def iw)
    then have "pos (nat a) \<noteq> pos (nat b)" using pp by metis
    then show "{pos (nat a)} \<inter> {pos (nat b)} = {}" by simp
  qed (rule line(1))
  then obtain s' where s': "foldE (print_image_cell g i chars (int y)) (upto_int (i_width i)) line = Inr s'"
    "length s' = W + 1"
    "\<forall>j<W + 1. s' ! j = (if j \<in> (\<Union>x\<in>set (upto_int (i_width i)). {pos (nat x)}) then G j (line ! j) else line ! j)"
    by blast
  have mem: "\<And>j. j \<in> (\<Union>x\<in>set (upto_int (i_width i)). {pos (nat x)}) \<longleftrightarrow> j < W"
  proof
    fix j assume "j \<in> (\<Union>x\<in>set (upto_int (i_width i)). {pos (nat x)})"
    then show "j < W" using pp by (auto simp: upto_int_def iw)
  next
    fix j assume j: "j < W"
    then have "int (pos j) \<in> set (upto_int (i_width i))" "pos (nat (int (pos j))) = j"
      using pp [OF j] by (simp_all add: upto_int_def iw)
    then show "j \<in> (\<Union>x\<in>set (upto_int (i_width i)). {pos (nat x)})" by blast
  qed
  have last: "s' ! W = NUL" using s'(3) [rule_format, of W] mem [of W] line(2) by simp
  have body: "\<And>j. j < W \<Longrightarrow> s' ! j = cell_char g i chars r (pos j)"
    using s'(3) mem by (simp add: G_def)
  have nn: "\<And>j. j < W \<Longrightarrow> cell_char g i chars r (pos j) \<noteq> NUL"
  proof -
    fix j assume j: "j < W"
    have pj: "pos j < W" using pp [OF j] by simp
    note pc = print_image_cell_eq [of i g chars y "pos j" line, OF w h, folded W_def H_def,
        OF len cells pal y pj line(1)]
    show "cell_char g i chars r (pos j) \<noteq> NUL"
      unfolding r_def by (rule pc [THEN conjunct2])
  qed
  have rt: "row_text g i chars y = map (\<lambda>p. cell_char g i chars r (pos p)) [0..<W]"
    by (simp add: row_text_def r_def pos_def W_def H_def)
  have s'_eq: "s' = row_text g i chars y @ [NUL]"
  proof (rule nth_equalityI)
    show "length s' = length (row_text g i chars y @ [NUL])" using s'(2) by (simp add: rt)
  next
    fix j assume "j < length s'"
    then have "j < W \<or> j = W" using s'(2) by linarith
    then show "s' ! j = (row_text g i chars y @ [NUL]) ! j"
      using body last by (auto simp: rt nth_append)
  qed
  have "\<forall>c\<in>set (row_text g i chars y). c \<noteq> NUL" using nn by (auto simp: rt)
  then have tw: "takeWhile (\<lambda>c. c \<noteq> NUL) s' = row_text g i chars y"
    unfolding s'_eq by (simp add: takeWhile_append2)
  show ?thesis
    using s'(1,2) last tw by (simp add: print_image_row_def bindE_def)
qed


lemma print_image_rows_eq:
  fixes i :: Image
  defines "W \<equiv> nat (i_width i)" and "H \<equiv> nat (i_height i)"
  assumes w: "1 \<le> i_width i" and h: "1 \<le> i_height i"
    and len: "length (pixel i) = W * H"
    and cells: "\<forall>v\<in>set (pixel i). 0 \<le> v \<and> v \<le> 1"
    and pal: "int (strlen (ascii_palette g)) = chars + 1" "1 \<le> chars" "chars \<le> 255"
    and ys: "\<forall>y\<in>set ys. y < H" and line: "length line = W + 1" "line ! W = NUL"
  shows "\<exists>line'. foldE (print_image_row g i chars) (map int ys) (line, out) =
            Inr (line', out @ map (\<lambda>y. row_text g i chars y @ [newline]) ys)
          \<and> length line' = W + 1 \<and> line' ! W = NUL"
  using ys line
proof (induction ys arbitrary: line out)
  case Nil
  then show ?case by simp
next
  case (Cons y ys)
  have y: "y < H" using Cons.prems(1) by simp
  from print_image_row_eq [of i g chars y line out, OF w h, folded W_def H_def, OF len cells pal y Cons.prems(2,3)]
  obtain l1 where l1: "print_image_row g i chars (int y) (line, out) =
       Inr (l1, out @ [row_text g i chars y @ [newline]])" "length l1 = W + 1" "l1 ! W = NUL"
    by blast
  have "\<forall>y\<in>set ys. y < H" using Cons.prems(1) by simp
  from Cons.IH [OF this l1(2,3), of "out @ [row_text g i chars y @ [newline]]"]
  obtain l2 where l2: "foldE (print_image_row g i chars) (map int ys) (l1, out @ [row_text g i chars y @ [newline]]) =
       Inr (l2, (out @ [row_text g i chars y @ [newline]]) @ map (\<lambda>y. row_text g i chars y @ [newline]) ys)"
       "length l2 = W + 1" "l2 ! W = NUL"
    by blast
  show ?case using l1(1) l2 by simp
qed

lemma rendered_eq:
  assumes w: "1 \<le> i_width i" and h: "1 \<le> i_height i"
    and len: "length (pixel i) = nat (i_width i) * nat (i_height i)"
    and cells: "\<forall>v\<in>set (pixel i). 0 \<le> v \<and> v \<le> 1"
    and pal: "int (strlen (ascii_palette g)) = chars + 1" "1 \<le> chars" "chars \<le> 255"
  shows "rendered g i chars = Inr (map (\<lambda>y. row_text g i chars y @ [newline]) [0..<nat (i_height i)])"
proof -
  define W where "W = nat (i_width i)"
  define H where "H = nat (i_height i)"
  have l0: "wr (replicate (nat (i_width i + 1)) NUL) (i_width i) NUL = Inr (replicate (W + 1) NUL)"
  proof -
    have "nat (i_width i + 1) = W + 1" using w by (simp add: W_def)
    moreover have "(replicate (W + 1) NUL)[W := NUL] = replicate (W + 1) NUL"
    proof -
      have "replicate (W + 1) NUL ! W = NUL" by (rule nth_replicate) simp
      then show ?thesis using list_update_id [of "replicate (W + 1) NUL" W] by (simp only:)
    qed
    moreover have "0 \<le> i_width i \<and> i_width i < int (length (replicate (W + 1) NUL))"
      using w by (simp add: W_def)
    moreover have "nat (i_width i) = W" by (simp add: W_def)
    ultimately show ?thesis unfolding wr_def by (simp only: if_True simp_thms)
  qed
  have a1: "\<forall>y\<in>set [0..<H]. y < H" by simp
  have a2: "length (replicate (W + 1) NUL) = W + 1" by (rule length_replicate)
  have a3: "replicate (W + 1) NUL ! W = NUL" by (rule nth_replicate) simp
  from print_image_rows_eq [of i g chars "[0..<H]" "replicate (W + 1) NUL" "stdout g", OF w h,
      folded W_def H_def, OF len [folded W_def H_def] cells pal a1 a2 a3]
  obtain line' where r: "foldE (print_image_row g i chars) (map int [0..<H]) (replicate (W + 1) NUL, stdout g) =
      Inr (line', stdout g @ map (\<lambda>y. row_text g i chars y @ [newline]) [0..<H])"
    by blast
  have "print_image g i chars = Inr (g\<lparr>stdout := stdout g @ map (\<lambda>y. row_text g i chars y @ [newline]) [0..<H]\<rparr>)"
    unfolding print_image_def l0 using r by (simp add: bindE_def upto_int_def H_def)
  then show ?thesis by (simp add: rendered_def bindE_def H_def)
qed

lemma map_flipped_index:
  "map (\<lambda>p. f (n - p - 1)) [0..<n] = rev (map f [0..<n])"
  by (rule nth_equalityI) (simp_all add: rev_nth)


lemma row_text_unflipped:
  "row_text (g\<lparr>flipx := 0, flipy := 0\<rparr>) i chars r =
     map (\<lambda>p. cell_char g i chars r p) [0..<nat (i_width i)]"
  by (simp add: row_text_def)

lemma row_text_flags:
  "row_text (g\<lparr>flipx := fx, flipy := fy\<rparr>) i chars y =
     (if fx = 0 then id else rev)
       (row_text (g\<lparr>flipx := 0, flipy := 0\<rparr>) i chars (if fy = 0 then y else nat (i_height i) - y - 1))"
proof -
  define r where "r = (if fy = 0 then y else nat (i_height i) - y - 1)"
  define W where "W = nat (i_width i)"
  have 1: "row_text (g\<lparr>flipx := fx, flipy := fy\<rparr>) i chars y =
     map (\<lambda>p. cell_char g i chars r (if fx = 0 then p else W - p - 1)) [0..<W]"
    by (simp add: row_text_def r_def W_def)
  have 2: "row_text (g\<lparr>flipx := 0, flipy := 0\<rparr>) i chars r = map (\<lambda>p. cell_char g i chars r p) [0..<W]"
    unfolding W_def by (rule row_text_unflipped)
  have 3: "map (\<lambda>p. cell_char g i chars r (W - p - 1)) [0..<W] = rev (map (\<lambda>p. cell_char g i chars r p) [0..<W])"
    by (rule map_flipped_index)
  show ?thesis
  proof (cases "fx = 0")
    case True
    then show ?thesis unfolding r_def [symmetric] 1 2 by simp
  next
    case False
    then show ?thesis unfolding r_def [symmetric] 1 2 using 3 by simp
  qed
qed

lemma flip_lines_x_rows:
  "flip_lines_x (map (\<lambda>y. f y @ [newline]) ys) = map (\<lambda>y. rev (f y) @ [newline]) ys"
  by (simp add: flip_lines_x_def)

lemma flip_lines_y_rows:
  "flip_lines_y (map f [0..<n]) = map (\<lambda>y. f (n - y - 1)) [0..<n]"
  unfolding flip_lines_y_def by (rule map_flipped_index [symmetric])

lemma rendered_flags:
  fixes g :: globals and i :: Image and chars :: int
  defines "out \<equiv> map (\<lambda>y. row_text (g\<lparr>flipx := 0, flipy := 0\<rparr>) i chars y @ [newline]) [0..<nat (i_height i)]"
  assumes w: "1 \<le> i_width i" and h: "1 \<le> i_height i"
    and len: "length (pixel i) = nat (i_width i) * nat (i_height i)"
    and cells: "\<forall>v\<in>set (pixel i). 0 \<le> v \<and> v \<le> 1"
    and pal: "int (strlen (ascii_palette g)) = chars + 1" "1 \<le> chars" "chars \<le> 255"
  shows "rendered (g\<lparr>flipx := fx, flipy := fy\<rparr>) i chars =
     Inr ((if fy = 0 then id else flip_lines_y) ((if fx = 0 then id else flip_lines_x) out))"
proof -
  define H where "H = nat (i_height i)"
  define T where "T = (\<lambda>y. row_text (g\<lparr>flipx := 0, flipy := 0\<rparr>) i chars y)"
  have out: "out = map (\<lambda>y. T y @ [newline]) [0..<H]" by (simp add: out_def T_def H_def)
  have pal': "int (strlen (ascii_palette (g\<lparr>flipx := fx, flipy := fy\<rparr>))) = chars + 1"
    using pal by simp
  have rows: "\<And>y. row_text (g\<lparr>flipx := fx, flipy := fy\<rparr>) i chars y =
      (if fx = 0 then id else rev) (T (if fy = 0 then y else H - y - 1))"
    unfolding T_def H_def by (rule row_text_flags)
  have x: "(if fx = 0 then id else flip_lines_x) out =
      map (\<lambda>y. (if fx = 0 then id else rev) (T y) @ [newline]) [0..<H]"
    unfolding out by (cases "fx = 0") (simp_all add: flip_lines_x_rows)
  have y: "(if fy = 0 then id else flip_lines_y) (map (\<lambda>y. (if fx = 0 then id else rev) (T y) @ [newline]) [0..<H]) =
      map (\<lambda>y. (if fx = 0 then id else rev) (T (if fy = 0 then y else H - y - 1)) @ [newline]) [0..<H]"
    by (cases "fy = 0") (simp_all add: flip_lines_y_rows)
  have "rendered (g\<lparr>flipx := fx, flipy := fy\<rparr>) i chars =
      Inr (map (\<lambda>y. row_text (g\<lparr>flipx := fx, flipy := fy\<rparr>) i chars y @ [newline]) [0..<H])"
    unfolding H_def by (rule rendered_eq [OF w h len cells pal' pal(2,3)])
  also have "map (\<lambda>y. row_text (g\<lparr>flipx := fx, flipy := fy\<rparr>) i chars y @ [newline]) [0..<H] =
      (if fy = 0 then id else flip_lines_y) ((if fx = 0 then id else flip_lines_x) out)"
    unfolding x y rows ..
  finally show ?thesis .
qed

lemma flip_lines_involutions:
  "flip_lines_y (flip_lines_y out) = out"
  "flip_lines_x (flip_lines_x (map (\<lambda>y. f y @ [newline]) ys)) = map (\<lambda>y. f y @ [newline]) ys"
  by (simp_all add: flip_lines_y_def flip_lines_x_rows)

subsection \<open>The derived height of calc_aspect_ratio\<close>

lemma pow2_between:
  fixes n :: int
  assumes "1 \<le> n"
  shows "\<exists>j::nat. n < 2 ^ j \<and> 2 ^ j \<le> 2 * n \<and> 1 \<le> j"
proof -
  have p: "0 < n" using assms by simp
  have b: "1 \<le> bitlen n" using p by (simp add: bitlen_alt_def)
  from bitlen_bounds [OF p] have 1: "2 ^ nat (bitlen n - 1) \<le> n" and 2: "n < 2 ^ nat (bitlen n)" by auto
  have "(2::int) ^ nat (bitlen n) = 2 * 2 ^ nat (bitlen n - 1)"
    using b by (metis Suc_nat_eq_nat_zadd1 add.commute diff_add_cancel diff_ge_0_iff_ge power_Suc)
  with 1 have "(2::int) ^ nat (bitlen n) \<le> 2 * n" by simp
  moreover have "1 \<le> nat (bitlen n)" using b by simp
  ultimately show ?thesis using 2 by blast
qed

text \<open>
  A float of the form \<open>a - 2 powi (- j)\<close> for an integer or half-integer \<open>a\<close>: the multiples of
  \<open>2 powi (- j)\<close> below \<open>2 powi (24 - j)\<close> are floats.
\<close>

lemma fl32_grid:
  fixes M :: int and j :: nat
  assumes "0 \<le> M" "M < 2 ^ 24" "j \<le> 149"
  shows "fl32 (of_int M * 2 powi (- int j)) = of_int M * 2 powi (- int j)"
proof (rule fl32_exact [of _ M "- int j"])
  show "- 149 \<le> - int j" using assms(3) by simp
  have "(of_int M :: rat) < of_int (2 ^ 24)" using assms(2) by (simp only: of_int_less_iff)
  then have "(of_int M :: rat) * 2 powi (- int j) < of_int (2 ^ 24) * 2 powi (- int j)"
    by (rule mult_strict_right_mono) simp
  also have "\<dots> = 2 powi (- int j + 24)"
  proof -
    have "(2::rat) powi (- int j + 24) = 2 powi (- int j) * 2 powi 24"
      by (rule power_int_add) simp
    then show ?thesis by simp
  qed
  finally show "\<bar>of_int M * 2 powi (- int j) :: rat\<bar> < 2 powi (- int j + 24)"
    using assms(1) by (simp add: abs_mult)
qed simp


text \<open>
  Rounding a quotient \<open>N / (2 * d)\<close> of small integers half-up in single precision gives
  the exact result: the quotient misses a tie by at least \<open>1 / (2 * d)\<close>, which is more than
  the spacing of the floats there.
\<close>

lemma ROUND_quotient_exact:
  fixes N d :: int
  assumes N: "0 \<le> N" and d: "1 \<le> d" and small: "N + 3 * d \<le> 8388608"
  shows "ROUND (fl32 (of_int N / (2 * of_int d))) = Inr ((N + d) div (2 * d))"
proof -
  define Q :: rat where "Q = of_int N / (2 * of_int d)"
  define k where "k = (N + d) div (2 * d)"
  define q where "q = fl32 Q"
  have dpos: "(0::rat) < 2 * of_int d" using d by simp
  have Qh: "Q + 1/2 = of_int (N + d) / of_int (2 * d)"
    using d by (simp add: Q_def field_simps)
  have kf: "k = \<lfloor>Q + 1/2\<rfloor>"
    unfolding Qh k_def by (simp only: floor_divide_of_int_eq)
  have k0: "0 \<le> k" using N d by (simp add: k_def pos_imp_zdiv_nonneg_iff)
  have kd: "k * (2 * d) \<le> N + d" "N + d < (k + 1) * (2 * d)"
  proof -
    have m: "0 \<le> (N + d) mod (2 * d)" "(N + d) mod (2 * d) < 2 * d" using d by simp_all
    have e: "N + d = k * (2 * d) + (N + d) mod (2 * d)"
      unfolding k_def by (rule div_mult_mod_eq [symmetric])
    show "k * (2 * d) \<le> N + d" using e m(1) by linarith
    have "(k + 1) * (2 * d) = k * (2 * d) + 2 * d" by (simp add: algebra_simps)
    then show "N + d < (k + 1) * (2 * d)" using e m(2) by linarith
  qed
  have kbig: "(2 * k + 2) * d \<le> 8388608"
  proof -
    have "(2 * k + 2) * d = k * (2 * d) + 2 * d" by (simp add: algebra_simps)
    then show ?thesis using kd(1) small by linarith
  qed
  have k1: "k + 1 \<le> 4194304"
  proof -
    have "(2 * k + 2) * 1 \<le> (2 * k + 2) * d" using d k0 by (intro mult_left_mono) simp_all
    with kbig show ?thesis by simp
  qed
  have Q0: "0 \<le> Q" using N d by (simp add: Q_def)
  have Qlo: "of_int k - 1/2 \<le> Q" using kf by linarith
  have Qhi: "Q \<le> of_int k + 1/2 - 1 / (2 * of_int d)"
  proof -
    have "N + d + 1 \<le> (k + 1) * (2 * d)" using kd(2) by simp
    then have "(of_int (N + d + 1) :: rat) \<le> of_int ((k + 1) * (2 * d))" by (simp only: of_int_le_iff)
    then have "(of_int (N + d + 1) :: rat) / (2 * of_int d) \<le> of_int ((k + 1) * (2 * d)) / (2 * of_int d)"
      using dpos by (simp only: divide_right_mono less_imp_le)
    moreover have "(of_int ((k + 1) * (2 * d)) :: rat) / (2 * of_int d) = of_int k + 1"
      using d by simp
    moreover have "(of_int (N + d + 1) :: rat) / (2 * of_int d) = Q + 1/2 + 1 / (2 * of_int d)"
      using d by (simp add: Q_def field_simps)
    ultimately show ?thesis by linarith
  qed
  have q0: "0 \<le> q" unfolding q_def by (rule fl32_nonneg [OF Q0])
  have fk: "fl32 (of_int k + 1/2) = of_int k + 1/2"
    by (rule fl32_half_small) (use k0 k1 in linarith)+
  have "(0::rat) \<le> 1 / (2 * of_int d)" using dpos by simp
  with Qhi have "Q \<le> of_int k + 1/2" by linarith
  then have "q \<le> of_int k + 1/2" unfolding q_def by (rule fl32_le_float [OF _ fk])
  moreover have "(of_int k :: rat) + 1/2 \<le> of_int 4194304"
  proof -
    have "(of_int (k + 1) :: rat) \<le> of_int 4194304" using k1 by (simp only: of_int_le_iff)
    then show ?thesis by simp
  qed
  ultimately have qs: "q \<le> 4194304" by simp
  have R: "ROUND q = Inr \<lfloor>fl32 (1/2 + q)\<rfloor>" by (rule ROUND_small [OF q0 qs])
  have lower: "k \<le> \<lfloor>fl32 (1/2 + q)\<rfloor>"
  proof (rule ROUND_ge)
    have "fl32 (of_int (k - 1) + 1/2) = of_int (k - 1) + 1/2"
      by (rule fl32_half_small) (use k0 k1 in linarith)+
    then have "fl32 (of_int k - 1/2) = of_int k - 1/2" by simp
    then show "of_int k - 1/2 \<le> q" unfolding q_def by (rule fl32_ge_float [OF Qlo])
  qed (use k0 k1 in linarith)+
  have upper: "\<lfloor>fl32 (1/2 + q)\<rfloor> \<le> k"
  proof -
    from pow2_between [of "2 * d"] d
    obtain j :: nat where j: "2 * d < 2 ^ j" "2 ^ j \<le> 2 * (2 * d)" "1 \<le> j" by auto
    define P :: int where "P = 2 ^ j"
    define P' :: int where "P' = 2 ^ (j - 1)"
    have PP: "P = 2 * P'" using j(3) by (simp add: P_def P'_def flip: power_Suc)
    have Pd: "2 * d < P" "P \<le> 4 * d" using j by (simp_all add: P_def)
    have Ppos: "(0::rat) < of_int P" using Pd d by simp
    have pw: "(2::rat) powi (- int j) = 1 / of_int P"
      by (simp add: P_def power_int_minus divide_inverse)
    have j149: "j \<le> 149"
    proof -
      have "P \<le> 33554432" using Pd(2) small d N by linarith
      then have "(2::int) ^ j \<le> 2 ^ 25" by (simp add: P_def)
      then have "j \<le> 25" by (rule power_le_imp_le_exp [rotated]) simp
      then show ?thesis by simp
    qed
    define M1 where "M1 = (2 * k + 1) * P' - 1"
    define M2 where "M2 = (k + 1) * P - 1"
    have P'1: "1 \<le> P'" by (simp add: P'_def)
    have M1_0: "0 \<le> M1"
    proof -
      have "1 * 1 \<le> (2 * k + 1) * P'" using k0 P'1 by (intro mult_mono) simp_all
      then show ?thesis by (simp add: M1_def)
    qed
    have M2_big: "(k + 1) * P \<le> 16777216"
    proof -
      have "(k + 1) * P \<le> (k + 1) * (4 * d)" using k0 Pd(2) by (intro mult_left_mono) simp_all
      also have "\<dots> = 2 * ((2 * k + 2) * d)" by (simp add: algebra_simps)
      also have "\<dots> \<le> 16777216" using kbig by linarith
      finally show ?thesis .
    qed
    have M2_0: "0 \<le> M2"
    proof -
      have "1 * 1 \<le> (k + 1) * P" using k0 Pd d by (intro mult_mono) simp_all
      then show ?thesis by (simp add: M2_def)
    qed
    have M2_lt: "M2 < 2 ^ 24" using M2_big by (simp add: M2_def)
    have M1_lt: "M1 < 2 ^ 24"
    proof -
      have "(2 * k + 1) * P' \<le> (2 * k + 2) * P'" using P'1 by (intro mult_right_mono) simp_all
      also have "\<dots> = (k + 1) * P" by (simp add: PP algebra_simps)
      finally show ?thesis using M2_big by (simp add: M1_def)
    qed
    have F1: "of_int k + 1/2 - 1 / of_int P = of_int M1 * (2::rat) powi (- int j)"
    proof -
      have m: "(of_int M1 :: rat) = (of_int k + 1/2) * of_int P - 1"
        by (simp add: M1_def PP algebra_simps)
      show ?thesis unfolding pw m using Ppos by (simp add: field_simps)
    qed
    have F2: "of_int k + 1 - 1 / of_int P = of_int M2 * (2::rat) powi (- int j)"
    proof -
      have m: "(of_int M2 :: rat) = (of_int k + 1) * of_int P - 1"
        by (simp add: M2_def algebra_simps)
      show ?thesis unfolding pw m using Ppos by (simp add: field_simps)
    qed
    have f1: "fl32 (of_int k + 1/2 - 1 / of_int P) = of_int k + 1/2 - 1 / of_int P"
      unfolding F1 by (rule fl32_grid [OF M1_0 M1_lt j149])
    have f2: "fl32 (of_int k + 1 - 1 / of_int P) = of_int k + 1 - 1 / of_int P"
      unfolding F2 by (rule fl32_grid [OF M2_0 M2_lt j149])
    have "(1::rat) / of_int P \<le> 1 / (2 * of_int d)"
    proof -
      have "(2 * of_int d :: rat) \<le> of_int P"
        using Pd(1) by (metis less_imp_le of_int_le_iff of_int_mult of_int_numeral)
      then show ?thesis using dpos by (intro divide_left_mono) simp_all
    qed
    with Qhi have "Q \<le> of_int k + 1/2 - 1 / of_int P" by linarith
    then have "q \<le> of_int k + 1/2 - 1 / of_int P" unfolding q_def by (rule fl32_le_float [OF _ f1])
    then have "1/2 + q \<le> of_int k + 1 - 1 / of_int P" by linarith
    then have "fl32 (1/2 + q) \<le> of_int k + 1 - 1 / of_int P" by (rule fl32_le_float [OF _ f2])
    moreover have "(0::rat) < 1 / of_int P" using Ppos by (simp only: zero_less_divide_1_iff)
    ultimately have "fl32 (1/2 + q) < of_int k + 1" by linarith
    then have "fl32 (1/2 + q) < of_int (k + 1)" by simp
    then have "\<lfloor>fl32 (1/2 + q)\<rfloor> < k + 1" by (simp only: floor_less_iff)
    then show ?thesis by simp
  qed
  from lower upper R show ?thesis by (simp add: q_def Q_def k_def)
qed


lemma fl32_half_of_int:
  assumes "\<bar>n\<bar> < 2 ^ 24"
  shows "fl32 (of_int n / 2) = of_int n / 2"
proof -
  have e: "(of_int n / 2 :: rat) = of_int n * 2 powi (- 1)" by simp
  have "\<bar>of_int n :: rat\<bar> < of_int (2 ^ 24)"
    using assms by (simp only: of_int_abs [symmetric] of_int_less_iff)
  then have "\<bar>of_int n / 2 :: rat\<bar> < 2 powi (- 1 + 24)" by simp
  then show ?thesis using fl32_exact [OF e, simplified] by simp
qed

lemma round_half_up_div:
  fixes N d :: int
  assumes "1 \<le> d"
  shows "\<lfloor>(1/2) * of_int W * of_int h / of_int d + (1/2 :: rat)\<rfloor> = (W * h + d) div (2 * d)"
proof -
  have "(1/2) * of_int W * of_int h / of_int d + (1/2 :: rat) = of_int (W * h + d) / of_int (2 * d)"
    using assms by (simp add: field_simps)
  then show ?thesis by (simp only: floor_divide_of_int_eq)
qed

lemma calc_height_exact:
  assumes w: "1 \<le> width g" and jw: "1 \<le> jw" and jh: "1 \<le> jh"
    and small: "width g * jh + 3 * jw \<le> 8388608"
  shows "calc_height g jw jh = Inr ((width g * jh + jw) div (2 * jw))"
proof -
  define N where "N = width g * jh"
  have N1: "1 \<le> N"
  proof -
    have "1 * 1 \<le> width g * jh" using w jh by (intro mult_mono) simp_all
    then show ?thesis by (simp add: N_def)
  qed
  have wN: "width g \<le> N"
  proof -
    have "width g * 1 \<le> width g * jh" using w jh by (intro mult_left_mono) simp_all
    then show ?thesis by (simp add: N_def)
  qed
  have hN: "jh \<le> N"
  proof -
    have "1 * jh \<le> width g * jh" using w jh by (intro mult_right_mono) simp_all
    then show ?thesis by (simp add: N_def)
  qed
  have Ns: "N + 3 * jw \<le> 8388608" using small by (simp add: N_def)
  have fw: "float_of_int (width g) = of_int (width g)"
    by (rule float_of_int_exact) (use w wN Ns jw in simp)
  have fh: "float_of_int jh = of_int jh"
    by (rule float_of_int_exact) (use jh hN Ns jw in simp)
  have fj: "float_of_int jw = of_int jw"
    by (rule float_of_int_exact) (use jw Ns N1 in simp)
  have 1: "fmul (1/2) (float_of_int (width g)) = of_int (width g) / 2"
    unfolding fmul_def fw using fl32_half_of_int [of "width g"] w wN Ns jw by simp
  have 2: "fmul (of_int (width g) / 2) (float_of_int jh) = of_int N / 2"
    unfolding fmul_def fh using fl32_half_of_int [of N] N1 Ns jw by (simp add: N_def)
  have 3: "fdiv (of_int N / 2) (float_of_int jw) = Inr (fl32 (of_int N / (2 * of_int jw)))"
    unfolding fdiv_def fj using jw by simp
  have "ROUND (fl32 (of_int N / (2 * of_int jw))) = Inr ((N + jw) div (2 * jw))"
    by (rule ROUND_quotient_exact) (use N1 jw Ns in simp_all)
  then show ?thesis
    unfolding calc_height_def 1 2 3 by (simp add: bindE_def N_def)
qed

text \<open>The three program points of \<open>calc_aspect_ratio\<close> when only the height is derived.\<close>

lemma height_loop_exit:
  "height g \<noteq> 0 \<Longrightarrow> calc_aspect_ratio_at HeightLoop jw jh g = Some (Inr g)"
  by (subst calc_aspect_ratio_at.simps) simp

lemma height_loop_step:
  "height g = 0 \<Longrightarrow> calc_aspect_ratio_at HeightLoop jw jh g =
     Option.bind (calc_aspect_ratio_at Entry jw jh (g\<lparr>width := width g + 1\<rparr>))
       (\<lambda>r. case r of Inl e \<Rightarrow> Some (Inl e) | Inr g' \<Rightarrow> calc_aspect_ratio_at HeightLoop jw jh g')"
  by (subst calc_aspect_ratio_at.simps) simp

lemma entry_derive_height:
  "auto_width g = 0 \<Longrightarrow> auto_height g \<noteq> 0 \<Longrightarrow> calc_height g jw jh = Inr h \<Longrightarrow>
   calc_aspect_ratio_at Entry jw jh g = calc_aspect_ratio_at HeightLoop jw jh (g\<lparr>height := h\<rparr>)"
  by (subst calc_aspect_ratio_at.simps) simp

lemma entry_fixed_size:
  "auto_width g \<noteq> 0 \<Longrightarrow> auto_height g \<noteq> 0 \<Longrightarrow> calc_aspect_ratio_at Entry jw jh g = Some (Inr g)"
  "auto_width g = 0 \<Longrightarrow> auto_height g = 0 \<Longrightarrow> calc_aspect_ratio_at Entry jw jh g = Some (Inr g)"
  by (subst calc_aspect_ratio_at.simps, simp)+

lemma derive_height_run:
  fixes jw jh :: int
  assumes jw: "1 \<le> jw" and jh: "1 \<le> jh" and s2: "jh + 4 * jw \<le> 8388608"
  shows "auto_width g = 0 \<Longrightarrow> auto_height g \<noteq> 0 \<Longrightarrow> 1 \<le> width g \<Longrightarrow>
    width g * jh + 3 * jw \<le> 8388608 \<Longrightarrow> n = nat (jw - width g * jh) \<Longrightarrow>
    \<exists>W. calc_aspect_ratio_at Entry jw jh g =
          Some (Inr (g\<lparr>width := W, height := (W * jh + jw) div (2 * jw)\<rparr>)) \<and>
        width g \<le> W \<and> 1 \<le> (W * jh + jw) div (2 * jw) \<and>
        (\<forall>w'. width g \<le> w' \<and> w' < W \<longrightarrow> (w' * jh + jw) div (2 * jw) = 0)"
proof (induction n arbitrary: g rule: less_induct)
  case (less n)
  define w where "w = width g"
  define h where "h = (w * jh + jw) div (2 * jw)"
  have ch: "calc_height g jw jh = Inr h"
    unfolding h_def w_def by (rule calc_height_exact [OF less.prems(3) jw jh less.prems(4)])
  have e: "calc_aspect_ratio_at Entry jw jh g = calc_aspect_ratio_at HeightLoop jw jh (g\<lparr>height := h\<rparr>)"
    by (rule entry_derive_height [OF less.prems(1,2) ch])
  have h0: "0 \<le> h" using jw jh less.prems(3) by (simp add: h_def w_def pos_imp_zdiv_nonneg_iff)
  show ?case
  proof (cases "h = 0")
    case False
    with h0 have h1: "1 \<le> h" by simp
    have r: "calc_aspect_ratio_at Entry jw jh g = Some (Inr (g\<lparr>height := h\<rparr>))"
      unfolding e by (rule height_loop_exit) (use False in simp)
    have eq: "g\<lparr>height := h\<rparr> = g\<lparr>width := width g, height := (width g * jh + jw) div (2 * jw)\<rparr>"
      by (simp add: h_def w_def)
    have 1: "calc_aspect_ratio_at Entry jw jh g =
        Some (Inr (g\<lparr>width := width g, height := (width g * jh + jw) div (2 * jw)\<rparr>))"
      using r by (simp only: eq)
    have 2: "1 \<le> (width g * jh + jw) div (2 * jw)" using h1 by (simp only: h_def w_def)
    have 3: "\<forall>w'. width g \<le> w' \<and> w' < width g \<longrightarrow> (w' * jh + jw) div (2 * jw) = 0" by simp
    from 1 2 3 show ?thesis by (intro exI [of _ "width g"] conjI) simp_all
  next
    case True
    have lt: "w * jh < jw"
    proof (rule ccontr)
      assume "\<not> w * jh < jw"
      then have "2 * jw \<le> w * jh + jw" by simp
      then have "(2 * jw) div (2 * jw) \<le> (w * jh + jw) div (2 * jw)"
        by (rule zdiv_mono1) (use jw in simp)
      with True jw show False by (simp add: h_def)
    qed
    define g1 where "g1 = g\<lparr>height := h, width := w + 1\<rparr>"
    have g1: "auto_width g1 = 0" "auto_height g1 \<noteq> 0" "1 \<le> width g1" "width g1 = w + 1"
      using less.prems(1,2,3) by (simp_all add: g1_def w_def)
    have b: "width g1 * jh + 3 * jw \<le> 8388608"
    proof -
      have "width g1 * jh = w * jh + jh" by (simp add: g1 algebra_simps)
      then show ?thesis using lt s2 by linarith
    qed
    have m: "nat (jw - width g1 * jh) < n"
    proof -
      have "width g1 * jh = w * jh + jh" by (simp add: g1 algebra_simps)
      then show ?thesis using lt jh less.prems(5) by (simp add: w_def)
    qed
    from less.IH [OF m g1(1,2,3) b refl]
    obtain W where W: "calc_aspect_ratio_at Entry jw jh g1 =
          Some (Inr (g1\<lparr>width := W, height := (W * jh + jw) div (2 * jw)\<rparr>))"
        "width g1 \<le> W" "1 \<le> (W * jh + jw) div (2 * jw)"
        "\<forall>w'. width g1 \<le> w' \<and> w' < W \<longrightarrow> (w' * jh + jw) div (2 * jw) = 0"
      by blast
    define g2 where "g2 = g1\<lparr>width := W, height := (W * jh + jw) div (2 * jw)\<rparr>"
    have g2: "g2 = g\<lparr>width := W, height := (W * jh + jw) div (2 * jw)\<rparr>"
      by (simp add: g2_def g1_def)
    have hg2: "height g2 \<noteq> 0" using W(3) by (simp add: g2_def)
    have "calc_aspect_ratio_at HeightLoop jw jh (g\<lparr>height := h\<rparr>) =
       Option.bind (calc_aspect_ratio_at Entry jw jh g1)
         (\<lambda>r. case r of Inl e \<Rightarrow> Some (Inl e) | Inr g' \<Rightarrow> calc_aspect_ratio_at HeightLoop jw jh g')"
      using height_loop_step [of "g\<lparr>height := h\<rparr>" jw jh] True by (simp add: g1_def w_def)
    also have "\<dots> = calc_aspect_ratio_at HeightLoop jw jh g2"
      unfolding W(1) g2_def by simp
    also have "\<dots> = Some (Inr g2)" by (rule height_loop_exit [OF hg2])
    finally have run: "calc_aspect_ratio_at Entry jw jh g = Some (Inr g2)" unfolding e .
    have first: "\<forall>w'. width g \<le> w' \<and> w' < W \<longrightarrow> (w' * jh + jw) div (2 * jw) = 0"
    proof (intro allI impI)
      fix w' assume a: "width g \<le> w' \<and> w' < W"
      show "(w' * jh + jw) div (2 * jw) = 0"
      proof (cases "w' = w")
        case True
        then show ?thesis using \<open>h = 0\<close> by (simp add: h_def)
      next
        case False
        with a have "width g1 \<le> w'" by (simp add: g1 w_def)
        with W(4) a show ?thesis by simp
      qed
    qed
    have "width g \<le> W" using W(2) g1(4) by (simp add: w_def)
    with run W(3) first show ?thesis unfolding g2 by blast
  qed
qed

subsection \<open>The loop of main over the arguments\<close>

lemma main_fopen_exit_code:
  "main_fopen fopen a g = Some (Inr (Exit r g')) \<Longrightarrow> r \<noteq> 0"
  by (auto simp: main_fopen_def split: option.splits sum.splits prod.splits if_splits)

lemma main_iteration_exit_code:
  "main_iteration fopen stdin_jpg a g = Some (Inr (Exit r g')) \<Longrightarrow> r \<noteq> 0"
  by (auto simp: main_iteration_def split: option.splits sum.splits prod.splits if_splits
      dest: main_fopen_exit_code)

lemma main_iteration_cannot_open:
  assumes "char_at a 0 \<noteq> CHR ''-''" "fopen a = None"
  shows "main_iteration fopen stdin_jpg a g =
    Some (Inr (Exit 1 (g\<lparr>stderr := stderr g @ [''Can'' @ [CHR 0x27] @ ''t open '' @ a @ [newline]]\<rparr>)))"
  using assms by (simp add: main_iteration_def main_fopen_def)

lemma main_loop_append:
  "main_loop fopen stdin_jpg pre g = Some (Inr (0, g')) \<Longrightarrow>
   main_loop fopen stdin_jpg (pre @ post) g = main_loop fopen stdin_jpg post g'"
proof (induction pre arbitrary: g)
  case Nil
  then show ?case by simp
next
  case (Cons p pre)
  show ?case
  proof (cases "main_iteration fopen stdin_jpg p g")
    case None
    with Cons.prems show ?thesis by simp
  next
    case (Some r)
    show ?thesis
    proof (cases r)
      case (Inl e)
      with Some Cons.prems show ?thesis by simp
    next
      case (Inr st)
      show ?thesis
      proof (cases st)
        case (Next g1)
        with Some Inr Cons.prems have "main_loop fopen stdin_jpg pre g1 = Some (Inr (0, g'))" by simp
        from Cons.IH [OF this] Some Inr Next show ?thesis by simp
      next
        case (Exit r g1)
        with Some Inr have "r \<noteq> 0" using main_iteration_exit_code by blast
        with Some Inr Exit Cons.prems show ?thesis by simp
      qed
    qed
  qed
qed

subsection \<open>The size options of parse_options\<close>

lemma scan_literal_prefix: "scan_literal lit s = Some r \<Longrightarrow> s = lit @ r"
  by (auto simp: scan_literal_def split: if_splits) (metis append_take_drop_id)

lemma sscanf_d_prefix: "sscanf_d lit s = Some n \<Longrightarrow> \<exists>r. s = lit @ r"
  by (auto simp: sscanf_d_def split: option.splits dest: scan_literal_prefix)

lemma parse_arg_width:
  assumes "sscanf_d ''--width='' s = Some n"
  shows "parse_arg s files g = Continue files (g\<lparr>width := n, auto_height := auto_height g + 1\<rparr>)"
proof -
  from sscanf_d_prefix [OF assms] obtain r where s: "s = ''--width='' @ r" by blast
  show ?thesis using assms unfolding parse_arg_def s by (simp add: char_at_def)
qed

lemma parse_arg_height:
  assumes "sscanf_d ''--height='' s = Some n"
  shows "parse_arg s files g = Continue files (g\<lparr>height := n, auto_width := auto_width g + 1\<rparr>)"
proof -
  from sscanf_d_prefix [OF assms] obtain r where s: "s = ''--height='' @ r" by blast
  have "sscanf_d ''--width='' s = None" unfolding s by (simp add: sscanf_d_def scan_literal_def)
  then show ?thesis using assms unfolding parse_arg_def s by (simp add: char_at_def)
qed

lemma parse_arg_file:
  assumes "char_at s 0 \<noteq> CHR ''-''"
  shows "parse_arg s files g = Continue (files + 1) g"
  using assms by (simp add: parse_arg_def)


lemma strlen_start_globals: "strlen (ascii_palette start_globals) = 23"
  by code_simp

lemma start_globals_fields:
  "auto_width start_globals = 0" "auto_height start_globals = 1" "width start_globals = 78"
  "height start_globals = 0"
  by (simp_all add: start_globals_def initial_globals_def)

text \<open>
  \<^verbatim>\<open>--width=N\<close> and \<open>--height=M\<close>, once each and in either order, in front of a file name: both
  counters stay nonzero, none of the two rules of \<open>parse_options\<close> that reset them applies,
  the check of the dimensions is skipped, and \<open>calc_aspect_ratio\<close> changes nothing.
\<close>

lemma width_and_height_given:
  assumes a: "sscanf_d ''--width='' a = Some N" and b: "sscanf_d ''--height='' b = Some M"
    and f: "char_at f 0 \<noteq> CHR ''-''"
  defines "g \<equiv> start_globals\<lparr>width := N, height := M, auto_width := 1, auto_height := 2\<rparr>"
  shows "parse_options [prog, a, b, f] start_globals = Inr (- 1, g)"
    and "parse_options [prog, b, a, f] start_globals = Inr (- 1, g)"
    and "calc_aspect_ratio jw jh g = Some (Inr g)"
proof -
  show "parse_options [prog, a, b, f] start_globals = Inr (- 1, g)"
    by (simp add: parse_options_def parse_arg_width [OF a] parse_arg_height [OF b] parse_arg_file [OF f]
        start_globals_fields strlen_start_globals g_def)
  show "parse_options [prog, b, a, f] start_globals = Inr (- 1, g)"
    by (simp add: parse_options_def parse_arg_width [OF a] parse_arg_height [OF b] parse_arg_file [OF f]
        start_globals_fields strlen_start_globals g_def)
  show "calc_aspect_ratio jw jh g = Some (Inr g)"
    unfolding calc_aspect_ratio_def by (rule entry_fixed_size(1)) (simp_all add: g_def)
qed

text \<open>Only \<^verbatim>\<open>--height=M\<close> with \<open>M \<ge> 1\<close>: the width is derived.\<close>

lemma only_height_given:
  assumes b: "sscanf_d ''--height='' b = Some M" and f: "char_at f 0 \<noteq> CHR ''-''" and M: "1 \<le> M"
  defines "g \<equiv> start_globals\<lparr>height := M, auto_width := 1, auto_height := 0\<rparr>"
  shows "parse_options [prog, b, f] start_globals = Inr (- 1, g)"
    and "calc_width g jw jh = Inr w \<Longrightarrow> w \<noteq> 0 \<Longrightarrow> calc_aspect_ratio jw jh g = Some (Inr (g\<lparr>width := w\<rparr>))"
proof -
  show "parse_options [prog, b, f] start_globals = Inr (- 1, g)"
    using M by (simp add: parse_options_def parse_arg_height [OF b] parse_arg_file [OF f]
        start_globals_fields strlen_start_globals g_def)
  assume w: "calc_width g jw jh = Inr w" "w \<noteq> 0"
  have 1: "calc_aspect_ratio_at WidthLoop jw jh (g\<lparr>width := w\<rparr>) = Some (Inr (g\<lparr>width := w\<rparr>))"
    by (subst calc_aspect_ratio_at.simps) (use w(2) in simp)
  show "calc_aspect_ratio jw jh g = Some (Inr (g\<lparr>width := w\<rparr>))"
    unfolding calc_aspect_ratio_def
    by (subst calc_aspect_ratio_at.simps) (simp add: w(1) 1, simp add: g_def)
qed

text \<open>\<^verbatim>\<open>--size=NxM\<close>: accepted for \<open>N \<ge> 1\<close> and \<open>M \<ge> 1\<close> only.\<close>

lemma size_given:
  assumes s: "sscanf_dxd ''--size='' s = (Some N, Some M)" and f: "char_at f 0 \<noteq> CHR ''-''"
  defines "g \<equiv> start_globals\<lparr>width := N, height := M, auto_width := 0, auto_height := 0\<rparr>"
  shows "1 \<le> N \<Longrightarrow> 1 \<le> M \<Longrightarrow> parse_options [prog, s, f] start_globals = Inr (- 1, g)"
    and "N < 1 \<or> M < 1 \<Longrightarrow> \<exists>g'. parse_options [prog, s, f] start_globals = Inr (1, g')"
    and "calc_aspect_ratio jw jh g = Some (Inr g)"
proof -
  have "scan_literal ''--size='' s \<noteq> None" using s by (auto simp: sscanf_dxd_def split: option.splits)
  then obtain r where r: "s = ''--size='' @ r" using scan_literal_prefix by blast
  have n: "sscanf_d ''--width='' s = None" "sscanf_d ''--height='' s = None"
    unfolding r by (simp_all add: sscanf_d_def scan_literal_def)
  have p: "parse_arg s 0 start_globals = Continue 0 g"
    using s n unfolding parse_arg_def r by (simp add: char_at_def g_def)
  show "1 \<le> N \<Longrightarrow> 1 \<le> M \<Longrightarrow> parse_options [prog, s, f] start_globals = Inr (- 1, g)"
    by (simp add: parse_options_def p parse_arg_file [OF f] strlen_start_globals g_def)
  show "N < 1 \<or> M < 1 \<Longrightarrow> \<exists>g'. parse_options [prog, s, f] start_globals = Inr (1, g')"
    by (auto simp add: parse_options_def p parse_arg_file [OF f] strlen_start_globals g_def)
  show "calc_aspect_ratio jw jh g = Some (Inr g)"
    unfolding calc_aspect_ratio_def by (rule entry_fixed_size(2)) (simp_all add: g_def)
qed

subsection \<open>Sources of height 1\<close>

text \<open>
  C7. The claim: no division by a zero divisor occurs anywhere in the core, in particular
  when \<open>resize_y = (height - 1) / (output_height - 1)\<close> is computed for a source of height 1.
  The code does not keep it: \<open>init_image\<close> has no guard, and for every source of height 1
  the divisor \<open>(float) (jpg->output_height-1)\<close> is zero, whatever the destination size.
\<close>

theorem init_image_divides_by_zero:
  "output_height jpg = 1 \<Longrightarrow> init_image i jpg = Inl DivisionByZero"
  by (simp add: init_image_def fdiv_def float_of_int_def fl32_def bindE_def)

theorem init_image_divides_by_zero_witness:
  "output_height white_1x1 = 1 \<and>
   init_image (clear (malloc_image (fixed_size 1 1))) white_1x1 = Inl DivisionByZero"
  using init_image_divides_by_zero [of white_1x1 "clear (malloc_image (fixed_size 1 1))"]
  by (simp add: white_1x1_def)

text \<open>
  C2. The claim: for a source in which every sample is \<open>v\<close>, every destination cell ends
  as \<open>v / 255\<close>, for every destination size. For the uniform source of one white pixel
  (\<open>v = 255\<close>) and the destination size 1 by 1 the run produces no grid at all: it stops in
  \<open>init_image\<close> at the division of 0 by 0.
\<close>

theorem decompress_uniform_height_one:
  "decompress white_1x1 (fixed_size 1 1) = Some (Inl DivisionByZero)"
  by code_simp

subsection \<open>The row cursor across images\<close>

text \<open>
  C1. The claim: the row cursor \<open>lasty\<close> is 0 at the start of each image. In the code it is a
  static variable, initialised once per process: after an image of destination height 2 it
  is 1, and the next image starts from there. Rendering the same file twice in one run
  (\<^verbatim>\<open>jtoa --size=1x2 a.jpg a.jpg\<close>) gives the lines \<open>l\<close>, \<open>M\<close> for the first copy and \<open>M\<close>, \<open>M\<close>
  for the second, whose first scanline is never accumulated.
\<close>

theorem lasty_carried_over:
  "map_option (map_sum id (\<lambda>r. (fst r, stdout (snd r), lasty (snd r))))
     (main only_a_jpg white_1x1 [''jtoa'', ''--size=1x2'', ''a.jpg'']) =
   Some (Inr (0, [''l'' @ [newline], ''M'' @ [newline]], 1)) \<and>
   map_option (map_sum id (\<lambda>r. (fst r, stdout (snd r), lasty (snd r))))
     (main only_a_jpg white_1x1 [''jtoa'', ''--size=1x2'', ''a.jpg'', ''a.jpg'']) =
   Some (Inr (0, [''l'' @ [newline], ''M'' @ [newline], ''M'' @ [newline], ''M'' @ [newline]], 1))"
  by code_simp

subsection \<open>The quantizer\<close>

text \<open>
  C4. The claim: for a palette of length \<open>L \<ge> 2\<close> (\<open>chars = L - 1\<close>) and a cell intensity in
  \<open>[0, 1]\<close>, \<open>pos = round(chars * intensity)\<close>, the index is \<open>invert ? pos : chars - pos\<close>, it
  lies in \<open>[0, L - 1]\<close>, and a black cell with \<open>invert\<close> unset gets the index \<open>chars\<close>.
  What holds: \<open>pos\<close> is the round-half-up of the product as single precision computes it,
  \<open>(int) (0.5f + (float) chars * intensity)\<close>. The product is rounded to 24 bits before
  0.5 is added, so \<open>pos\<close> is \<open>\<lfloor>chars * intensity + 1/2\<rfloor>\<close> or one more than that; the rest
  of the claim holds as stated. \<open>L \<le> 256\<close> is the capacity of the palette buffer.
\<close>

theorem palette_index_in_range:
  assumes L: "2 \<le> L" "L \<le> 256" and chars: "chars = L - 1"
    and i: "0 \<le> cell" "cell \<le> 1"
  shows "\<exists>pos k. palette_index g chars cell = Inr k
           \<and> k = (if invert g = 0 then chars - pos else pos)
           \<and> pos = \<lfloor>fl32 (1/2 + fl32 (of_int chars * cell))\<rfloor>
           \<and> \<lfloor>of_int chars * cell + 1/2\<rfloor> \<le> pos
           \<and> pos \<le> \<lfloor>of_int chars * cell + 1/2\<rfloor> + 1
           \<and> 0 \<le> k \<and> k \<le> L - 1
           \<and> (cell = 0 \<and> invert g = 0 \<longrightarrow> k = chars)"
  using assms by (rule palette_index_round)

theorem palette_index_in_range_witness:
  "(2::int) \<le> 23 \<and> (23::int) \<le> 256 \<and> (22::int) = 23 - 1 \<and> (0::rat) \<le> 0 \<and> (0::rat) \<le> 1 \<and>
   invert start_globals = 0 \<and> int (strlen (ascii_palette start_globals)) = 23 \<and>
   palette_index start_globals 22 0 = Inr 22 \<and>
   rd (ascii_palette start_globals) 22 = Inr (CHR ''M'')"
proof -
  have e: "invert start_globals = 0" "int (strlen (ascii_palette start_globals)) = 23"
    "rd (ascii_palette start_globals) 22 = Inr (CHR ''M'')"
    by code_simp+
  from palette_index_in_range [of 23 22 0 start_globals]
  obtain k where "palette_index start_globals 22 0 = Inr k"
    "0 = (0::rat) \<and> invert start_globals = 0 \<longrightarrow> k = 22" by auto
  with e show ?thesis by simp
qed

text \<open>
  The intensity \<open>13981013 / 16777216\<close> is a float. With a palette of 10 characters the product
  \<open>9 * intensity\<close> is just below 7.5 and rounds to the float 7.5, so \<open>pos\<close> is 8 and the index
  is 1, where \<open>\<lfloor>9 * intensity + 1/2\<rfloor>\<close> is 7.
\<close>

theorem palette_index_not_exact_round:
  "fl32 (13981013 / 16777216) = 13981013 / 16777216 \<and>
   palette_index start_globals 9 (13981013 / 16777216) = Inr (9 - 8) \<and>
   \<lfloor>9 * (13981013 / 16777216 :: rat) + 1/2\<rfloor> = 7"
  by code_simp

subsection \<open>The column lookup table\<close>





text \<open>
  The table does not depend on the height of the source: for the source of one pixel it is
  filled as for any other.
\<close>

lemma lookup_resx_height_one:
  "output_height white_1x1 = 1 \<and>
   init_image_columns (clear (malloc_image (fixed_size 1 1))) white_1x1 = Inr (1, [0])"
  by code_simp

text \<open>
  The bound on the length of the row is needed: with \<open>2 ^ 22\<close> columns of 1024 components
  and two destination columns, the second entry is \<open>2 ^ 21 * 1024 = 2 ^ 31\<close>, which no
  \<^verbatim>\<open>int\<close> holds.
\<close>

lemma lookup_resx_overflow:
  "uint (output_width wide_1024) = 4194304 \<and> out_color_components wide_1024 = 1024 \<and>
   init_image_columns (clear (malloc_image (fixed_size 2 1))) wide_1024 = Inl IntegerOverflow"
  by code_simp

subsection \<open>Normalization\<close>

text \<open>
  C5. A single run of \<open>normalize\<close> on a grid of \<open>w\<close> by \<open>h\<close> cells replaces every cell of a row
  \<open>y\<close> with \<open>yadds[y] \<noteq> 0\<close> by its quotient by \<open>yadds[y]\<close> (the single-precision division
  \<^verbatim>\<open>pixel[y * w + x] /= (float) yadds[y]\<close>; the conversion of a count up to \<open>2 ^ 24\<close> is exact) and
  leaves the rows with a zero count, and everything else in the image, as they are.
  Normalization is not idempotent: the grid \<open>summed_cell\<close>, whose one cell has the count 2,
  changes again when it is normalized a second time.
\<close>

theorem normalize_divides_by_row_count:
  assumes "1 \<le> i_width i" "1 \<le> i_height i"
    and "length (yadds i) = nat (i_height i)"
    and "length (pixel i) = nat (i_width i) * nat (i_height i)"
  shows "(\<exists>px'. normalize i = Inr (i\<lparr>pixel := px'\<rparr>) \<and> length px' = length (pixel i) \<and>
     (\<forall>y x. 0 \<le> y \<and> y < i_height i \<and> 0 \<le> x \<and> x < i_width i \<longrightarrow>
        px' ! nat (y * i_width i + x) =
          (if yadds i ! nat y \<noteq> 0
           then fl32 (pixel i ! nat (y * i_width i + x) / float_of_int (yadds i ! nat y))
           else pixel i ! nat (y * i_width i + x))
        \<and> (\<bar>yadds i ! nat y\<bar> \<le> 2 ^ 24 \<longrightarrow> float_of_int (yadds i ! nat y) = of_int (yadds i ! nat y)))) \<and>
   (\<exists>j j1 j2. 1 < yadds j ! 0 \<and> normalize j = Inr j1 \<and> normalize j1 = Inr j2 \<and> j2 \<noteq> j1)"
proof -
  define W where "W = nat (i_width i)"
  define H where "H = nat (i_height i)"
  from normalize_eq [OF assms(1,2), folded W_def H_def] assms(3,4)
  obtain px' where px': "normalize i = Inr (i\<lparr>pixel := px'\<rparr>)" "length px' = W * H"
    "\<forall>j<W * H. px' ! j = (if yadds i ! (j div W) \<noteq> 0
        then fl32 (pixel i ! j / float_of_int (yadds i ! (j div W))) else pixel i ! j)"
    by (auto simp: W_def H_def)
  have cells: "\<forall>y x. 0 \<le> y \<and> y < i_height i \<and> 0 \<le> x \<and> x < i_width i \<longrightarrow>
        px' ! nat (y * i_width i + x) =
          (if yadds i ! nat y \<noteq> 0
           then fl32 (pixel i ! nat (y * i_width i + x) / float_of_int (yadds i ! nat y))
           else pixel i ! nat (y * i_width i + x))
        \<and> (\<bar>yadds i ! nat y\<bar> \<le> 2 ^ 24 \<longrightarrow> float_of_int (yadds i ! nat y) = of_int (yadds i ! nat y))"
  proof (intro allI impI)
    fix y x assume "0 \<le> y \<and> y < i_height i \<and> 0 \<le> x \<and> x < i_width i"
    then have r: "0 \<le> y" "y < i_height i" "0 \<le> x" "x < i_width i" by simp_all
    have idx: "nat (y * i_width i + x) = nat y * W + nat x"
      using r assms(1) by (simp add: W_def nat_add_distrib nat_mult_distrib)
    have xw: "nat x < W" using r by (simp add: W_def)
    have yh: "nat y < H" using r by (simp add: H_def)
    have "nat y * W + nat x < nat y * W + W" using xw by simp
    also have "\<dots> = (nat y + 1) * W" by simp
    also have "\<dots> \<le> H * W" using yh by (intro mult_le_mono1) simp
    finally have in_range: "nat y * W + nat x < W * H" by (simp add: mult.commute)
    have d: "(nat y * W + nat x) div W = nat y" using xw by simp
    show "px' ! nat (y * i_width i + x) =
          (if yadds i ! nat y \<noteq> 0
           then fl32 (pixel i ! nat (y * i_width i + x) / float_of_int (yadds i ! nat y))
           else pixel i ! nat (y * i_width i + x))
        \<and> (\<bar>yadds i ! nat y\<bar> \<le> 2 ^ 24 \<longrightarrow> float_of_int (yadds i ! nat y) = of_int (yadds i ! nat y))"
      using px'(3) [rule_format, OF in_range] by (simp add: idx d float_of_int_exact)
  qed
  have twice: "1 < yadds summed_cell ! 0 \<and>
     normalize summed_cell = Inr (summed_cell\<lparr>pixel := [1/2]\<rparr>) \<and>
     normalize (summed_cell\<lparr>pixel := [1/2]\<rparr>) = Inr (summed_cell\<lparr>pixel := [1/4]\<rparr>) \<and>
     summed_cell\<lparr>pixel := [1/4]\<rparr> \<noteq> summed_cell\<lparr>pixel := [1/2]\<rparr>"
    by code_simp
  have "length px' = length (pixel i)" using px'(2) assms(4) by (simp add: W_def H_def)
  with px'(1) cells twice show ?thesis by blast
qed

theorem normalize_divides_by_row_count_witness:
  "1 \<le> i_width summed_cell \<and> 1 \<le> i_height summed_cell \<and>
   length (yadds summed_cell) = nat (i_height summed_cell) \<and>
   length (pixel summed_cell) = nat (i_width summed_cell) * nat (i_height summed_cell) \<and>
   (\<exists>px'. normalize summed_cell = Inr (summed_cell\<lparr>pixel := px'\<rparr>) \<and>
      px' ! 0 = fl32 (1 / float_of_int 2))"
proof -
  have h: "1 \<le> i_width summed_cell" "1 \<le> i_height summed_cell"
    "length (yadds summed_cell) = nat (i_height summed_cell)"
    "length (pixel summed_cell) = nat (i_width summed_cell) * nat (i_height summed_cell)"
    by code_simp+
  have v: "i_width summed_cell = 1" "i_height summed_cell = 1" "yadds summed_cell = [2]"
    "pixel summed_cell = [1]"
    by (simp_all add: summed_cell_def)
  from normalize_divides_by_row_count [OF h]
  obtain px' where p: "normalize summed_cell = Inr (summed_cell\<lparr>pixel := px'\<rparr>)"
    and c: "\<forall>y x. 0 \<le> y \<and> y < i_height summed_cell \<and> 0 \<le> x \<and> x < i_width summed_cell \<longrightarrow>
        px' ! nat (y * i_width summed_cell + x) =
          (if yadds summed_cell ! nat y \<noteq> 0
           then fl32 (pixel summed_cell ! nat (y * i_width summed_cell + x) / float_of_int (yadds summed_cell ! nat y))
           else pixel summed_cell ! nat (y * i_width summed_cell + x))
        \<and> (\<bar>yadds summed_cell ! nat y\<bar> \<le> 2 ^ 24 \<longrightarrow>
            float_of_int (yadds summed_cell ! nat y) = of_int (yadds summed_cell ! nat y))"
    by blast
  from c [rule_format, of 0 0] have "px' ! 0 = fl32 (1 / float_of_int 2)" by (simp add: v)
  with p h show ?thesis by blast
qed

subsection \<open>Flips\<close>

text \<open>
  C6. For a finished grid (\<open>w \<ge> 1\<close> by \<open>h \<ge> 1\<close> cells with intensities in \<open>[0, 1]\<close>) and a palette
  of \<open>chars + 1\<close> characters, \<open>print_image\<close> succeeds for all settings of the two flip flags;
  the output with \<open>flipy\<close> set is the unflipped output with its lines in reverse order, the
  output with \<open>flipx\<close> set is the unflipped output with every line reversed, and flipping
  such an output a second time on the same axis gives the unflipped output back. The grid
  itself is only read: \<open>print_image\<close> returns nothing but the output.
\<close>

theorem flip_twice_is_identity:
  assumes "1 \<le> i_width i" and "1 \<le> i_height i"
    and "length (pixel i) = nat (i_width i) * nat (i_height i)"
    and "\<forall>v\<in>set (pixel i). 0 \<le> v \<and> v \<le> 1"
    and "int (strlen (ascii_palette g)) = chars + 1" and "1 \<le> chars" and "chars \<le> 255"
  shows "\<exists>out. rendered (g\<lparr>flipx := 0, flipy := 0\<rparr>) i chars = Inr out \<and>
      length out = nat (i_height i) \<and>
      (\<forall>fx fy. rendered (g\<lparr>flipx := fx, flipy := fy\<rparr>) i chars =
          Inr ((if fy = 0 then id else flip_lines_y) ((if fx = 0 then id else flip_lines_x) out))) \<and>
      flip_lines_y (flip_lines_y out) = out \<and> flip_lines_x (flip_lines_x out) = out"
proof -
  define out where "out = map (\<lambda>y. row_text (g\<lparr>flipx := 0, flipy := 0\<rparr>) i chars y @ [newline]) [0..<nat (i_height i)]"
  note r = rendered_flags [OF assms, folded out_def]
  have 0: "rendered (g\<lparr>flipx := 0, flipy := 0\<rparr>) i chars = Inr out"
    using r [of 0 0] by simp
  have 1: "length out = nat (i_height i)" by (simp add: out_def)
  have 2: "\<forall>fx fy. rendered (g\<lparr>flipx := fx, flipy := fy\<rparr>) i chars =
          Inr ((if fy = 0 then id else flip_lines_y) ((if fx = 0 then id else flip_lines_x) out))"
    using r by blast
  have 3: "flip_lines_y (flip_lines_y out) = out" by (rule flip_lines_involutions(1))
  have 4: "flip_lines_x (flip_lines_x out) = out" unfolding out_def by (rule flip_lines_involutions(2))
  from 0 1 2 3 4 show ?thesis by blast
qed

theorem flip_twice_is_identity_witness:
  "1 \<le> i_width gradient_2x2 \<and> 1 \<le> i_height gradient_2x2 \<and>
   length (pixel gradient_2x2) = nat (i_width gradient_2x2) * nat (i_height gradient_2x2) \<and>
   list_all (\<lambda>v. 0 \<le> v \<and> v \<le> 1) (pixel gradient_2x2) \<and>
   int (strlen (ascii_palette start_globals)) = 22 + 1 \<and> (1::int) \<le> 22 \<and> (22::int) \<le> 255 \<and>
   (\<exists>out. rendered (start_globals\<lparr>flipx := 0, flipy := 0\<rparr>) gradient_2x2 22 = Inr out \<and>
      rendered (start_globals\<lparr>flipx := 1, flipy := 1\<rparr>) gradient_2x2 22 =
        Inr (flip_lines_y (flip_lines_x out)) \<and>
      flip_lines_y (flip_lines_y out) = out \<and> flip_lines_x (flip_lines_x out) = out)"
proof -
  have h: "1 \<le> i_width gradient_2x2" "1 \<le> i_height gradient_2x2"
    "length (pixel gradient_2x2) = nat (i_width gradient_2x2) * nat (i_height gradient_2x2)"
    "\<forall>v\<in>set (pixel gradient_2x2). 0 \<le> v \<and> v \<le> 1"
    "int (strlen (ascii_palette start_globals)) = 22 + 1" "(1::int) \<le> 22" "(22::int) \<le> 255"
    by code_simp+
  from flip_twice_is_identity [OF h]
  obtain out where o: "rendered (start_globals\<lparr>flipx := 0, flipy := 0\<rparr>) gradient_2x2 22 = Inr out"
    "\<forall>fx fy. rendered (start_globals\<lparr>flipx := fx, flipy := fy\<rparr>) gradient_2x2 22 =
          Inr ((if fy = 0 then id else flip_lines_y) ((if fx = 0 then id else flip_lines_x) out))"
    "flip_lines_y (flip_lines_y out) = out" "flip_lines_x (flip_lines_x out) = out"
    by blast
  from o(2) [rule_format, of 1 1]
  have "rendered (start_globals\<lparr>flipx := 1, flipy := 1\<rparr>) gradient_2x2 22 =
        Inr (flip_lines_y (flip_lines_x out))" by simp
  moreover have "list_all (\<lambda>v. 0 \<le> v \<and> v \<le> 1) (pixel gradient_2x2)"
    using h(4) by (simp only: list_all_iff)
  ultimately show ?thesis using o(1,3,4) h(1,2,3,5,6,7) by blast
qed

subsection \<open>Deriving the height\<close>

text \<open>
  C3. The claim: with the width fixed, for every source of width and height at least 1 the
  output height is \<open>round(0.5 * width * srcHeight / srcWidth)\<close>, rounded half up, and at least
  1 after the width has been incremented as long as the result rounds to 0.
  What holds: the code evaluates the expression in single precision, which agrees with
  the exact value while the numbers are small: for \<open>width * srcHeight + 3 * srcWidth \<le> 2 ^ 23\<close>
  and \<open>srcHeight + 4 * srcWidth \<le> 2 ^ 23\<close> the recursion returns, with the first width \<open>W\<close>
  from the requested one on whose height does not round to 0, and the height is
  \<open>\<lfloor>0.5 * W * srcHeight / srcWidth + 1/2\<rfloor>\<close>, at least 1.
\<close>

theorem derive_height:
  assumes "auto_width g = 0" and "auto_height g \<noteq> 0" and "1 \<le> width g"
    and "1 \<le> jw" and "1 \<le> jh"
    and "width g * jh + 3 * jw \<le> 2 ^ 23" and "jh + 4 * jw \<le> 2 ^ 23"
  shows "\<exists>W. calc_aspect_ratio jw jh g =
        Some (Inr (g\<lparr>width := W, height := \<lfloor>(1/2) * of_int W * of_int jh / of_int jw + (1/2 :: rat)\<rfloor>\<rparr>)) \<and>
      width g \<le> W \<and>
      1 \<le> \<lfloor>(1/2) * of_int W * of_int jh / of_int jw + (1/2 :: rat)\<rfloor> \<and>
      (\<forall>w'. width g \<le> w' \<and> w' < W \<longrightarrow>
         \<lfloor>(1/2) * of_int w' * of_int jh / of_int jw + (1/2 :: rat)\<rfloor> = 0)"
proof -
  have s: "width g * jh + 3 * jw \<le> 8388608" "jh + 4 * jw \<le> 8388608" using assms(6,7) by simp_all
  note r = derive_height_run [OF assms(4,5) s(2) assms(1,2,3) s(1) refl]
  show ?thesis
    unfolding calc_aspect_ratio_def round_half_up_div [OF assms(4)] by (rule r)
qed

theorem derive_height_witness:
  "auto_width start_globals = 0 \<and> auto_height start_globals \<noteq> 0 \<and> 1 \<le> width start_globals \<and>
   (1::int) \<le> 100 \<and> (1::int) \<le> 50 \<and>
   width start_globals * 50 + 3 * 100 \<le> 2 ^ 23 \<and> (50::int) + 4 * 100 \<le> 2 ^ 23 \<and>
   calc_aspect_ratio 100 50 start_globals = Some (Inr (start_globals\<lparr>width := 78, height := 20\<rparr>))"
proof -
  have h: "auto_width start_globals = 0" "auto_height start_globals \<noteq> 0" "1 \<le> width start_globals"
    "(1::int) \<le> 100" "(1::int) \<le> 50"
    "width start_globals * 50 + 3 * 100 \<le> 2 ^ 23" "(50::int) + 4 * 100 \<le> 2 ^ 23"
    by (simp_all add: start_globals_def initial_globals_def)
  have w: "width start_globals = 78" by (simp add: start_globals_def initial_globals_def)
  from derive_height [OF h]
  obtain W where W: "calc_aspect_ratio 100 50 start_globals =
        Some (Inr (start_globals\<lparr>width := W,
          height := \<lfloor>(1/2) * of_int W * of_int 50 / of_int 100 + (1/2 :: rat)\<rfloor>\<rparr>))"
      "width start_globals \<le> W"
      "\<forall>w'. width start_globals \<le> w' \<and> w' < W \<longrightarrow>
         \<lfloor>(1/2) * of_int w' * of_int 50 / of_int 100 + (1/2 :: rat)\<rfloor> = 0"
    by blast
  have f: "\<lfloor>(1/2) * of_int 78 * of_int 50 / of_int 100 + (1/2 :: rat)\<rfloor> = 20" by simp
  have "W = 78"
  proof (rule ccontr)
    assume "W \<noteq> 78"
    with W(2) w have "78 < W" by simp
    with W(3) [rule_format, of 78] w f show False by simp
  qed
  with W(1) f h show ?thesis by simp
qed

text \<open>
  A source 4236 pixels wide and 65419 high with the width 257: the product
  \<open>0.5 * 257 * 65419 = 8406341.5\<close> needs 25 bits and rounds to 8406342, the quotient by
  4236 is then exactly 1984.5, and the height is 1985, where
  \<open>0.5 * 257 * 65419 / 4236 = 1984.4999\<close> rounds to 1984.
\<close>

theorem derive_height_not_exact:
  "map_option (map_sum id (\<lambda>g. (width g, height g)))
     (calc_aspect_ratio 4236 65419 (start_globals\<lparr>width := 257\<rparr>)) = Some (Inr (257, 1985)) \<and>
   \<lfloor>(1/2) * 257 * 65419 / 4236 + (1/2 :: rat)\<rfloor> = 1984"
  by code_simp

subsection \<open>A file that cannot be opened\<close>

text \<open>
  C8. When the arguments in front of a file name \<open>a\<close> have been processed (the loop over them
  alone would end with code 0 in the state \<open>g'\<close>) and \<open>a\<close> cannot be opened, the run ends
  there with exit code 1: the state is \<open>g'\<close> with the line \<^verbatim>\<open>Can't open <a>\<close> added to the
  standard error, whatever arguments follow \<open>a\<close>; nothing more is written to the standard
  output and no later file is opened. The same holds for \<open>main\<close> once \<open>parse_options\<close> has
  accepted the arguments.
\<close>

theorem cannot_open_aborts_batch:
  assumes "char_at a 0 \<noteq> CHR ''-''" and "fopen a = None"
    and "main_loop fopen stdin_jpg pre g = Some (Inr (0, g'))"
  shows "main_loop fopen stdin_jpg (pre @ a # rest) g =
      Some (Inr (1, g'\<lparr>stderr := stderr g' @ [''Can'' @ [CHR 0x27] @ ''t open '' @ a @ [newline]]\<rparr>)) \<and>
    (\<forall>prog r. parse_options (prog # pre @ a # rest) start_globals = Inr (r, g) \<and> r < 0 \<longrightarrow>
       main fopen stdin_jpg (prog # pre @ a # rest) =
         Some (Inr (1, g'\<lparr>stderr := stderr g' @ [''Can'' @ [CHR 0x27] @ ''t open '' @ a @ [newline]]\<rparr>)))"
proof -
  have 1: "main_loop fopen stdin_jpg (pre @ a # rest) g =
      Some (Inr (1, g'\<lparr>stderr := stderr g' @ [''Can'' @ [CHR 0x27] @ ''t open '' @ a @ [newline]]\<rparr>))"
    unfolding main_loop_append [OF assms(3)]
    by (simp add: main_iteration_cannot_open [of a fopen, OF assms(1,2)])
  have "\<And>prog r. parse_options (prog # pre @ a # rest) start_globals = Inr (r, g) \<Longrightarrow> r < 0 \<Longrightarrow>
       main fopen stdin_jpg (prog # pre @ a # rest) = main_loop fopen stdin_jpg (pre @ a # rest) g"
    by (simp add: main_def start_globals_def)
  with 1 show ?thesis by simp
qed

theorem cannot_open_aborts_batch_witness:
  "char_at ''b.jpg'' 0 \<noteq> CHR ''-'' \<and> only_a_jpg ''b.jpg'' = None \<and>
   main_loop only_a_jpg white_1x1 [''-i''] (start_globals\<lparr>invert := 1\<rparr>) =
     Some (Inr (0, start_globals\<lparr>invert := 1\<rparr>)) \<and>
   parse_options [''jtoa'', ''-i'', ''b.jpg'', ''a.jpg''] start_globals = Inr (- 1, start_globals\<lparr>invert := 1\<rparr>) \<and>
   main only_a_jpg white_1x1 [''jtoa'', ''-i'', ''b.jpg'', ''a.jpg''] =
     Some (Inr (1, start_globals\<lparr>invert := 1,
       stderr := [''Can'' @ [CHR 0x27] @ ''t open b.jpg'' @ [newline]]\<rparr>))"
proof -
  have h: "char_at ''b.jpg'' 0 \<noteq> CHR ''-''" "only_a_jpg ''b.jpg'' = None"
    "main_loop only_a_jpg white_1x1 [''-i''] (start_globals\<lparr>invert := 1\<rparr>) =
       Some (Inr (0, start_globals\<lparr>invert := 1\<rparr>))"
    by (simp_all add: char_at_def only_a_jpg_def main_iteration_def NUL_def)
  have p: "parse_options [''jtoa'', ''-i'', ''b.jpg'', ''a.jpg''] start_globals = Inr (- 1, start_globals\<lparr>invert := 1\<rparr>)"
    by code_simp
  have e: "stderr start_globals = []" by (simp add: start_globals_def initial_globals_def)
  from cannot_open_aborts_batch [OF h, of "[''a.jpg'']", THEN conjunct2, rule_format, of "''jtoa''" "- 1"] p
  have "main only_a_jpg white_1x1 [''jtoa'', ''-i'', ''b.jpg'', ''a.jpg''] =
     Some (Inr (1, start_globals\<lparr>invert := 1,
       stderr := stderr (start_globals\<lparr>invert := 1\<rparr>) @ [''Can'' @ [CHR 0x27] @ ''t open '' @ ''b.jpg'' @ [newline]]\<rparr>))"
    by simp
  then show ?thesis using h p e by simp
qed

subsection \<open>Width and height given together\<close>

text \<open>
  C10. The claim: \<^verbatim>\<open>--width=N --height=M\<close> behaves as \<^verbatim>\<open>--size=NxM\<close>. The two agree on the
  output size (\<open>width_and_height_given\<close>, \<open>size_given\<close>), but not on which sizes they accept:
  \<^verbatim>\<open>--size=0x5\<close> is rejected with code 1, while \<^verbatim>\<open>--width=0 --height=5\<close> passes
  \<open>parse_options\<close> with the counters 1 and 2, for which the check of the dimensions does not
  apply, and the run then divides by the width 0 in \<open>init_image\<close>.
\<close>

theorem width_height_not_validated:
  "map_sum id (\<lambda>r. (fst r, width (snd r), height (snd r), auto_width (snd r), auto_height (snd r)))
     (parse_options [''jtoa'', ''--width=0'', ''--height=5'', ''a.jpg''] start_globals) =
     Inr (- 1, 0, 5, 1, 2) \<and>
   map_sum id fst (parse_options [''jtoa'', ''--size=0x5'', ''a.jpg''] start_globals) = Inr 1 \<and>
   main only_a_jpg white_1x1 [''jtoa'', ''--width=0'', ''--height=5'', ''a.jpg''] = Some (Inl DivisionByZero)"
  by code_simp

end
